theory Spec2Isabelle
  imports Main "HOL-Library.Word" "HOL-Library.Multiset"
begin

section \<open>The step-function container of package traces\<close>

text \<open>
  The Go package stores a discrete function as a set of breakpoints. All x and y values
  are \<^verbatim>\<open>int64\<close>: 64-bit words, compared as two's complement numbers
  (\<open>a <s b\<close> is \<open>sint a < sint b\<close>).

  \<^verbatim>\<open>
  type Series struct {
      points   map[int64]int64
      sorted   []int64
      unsorted []int64
  }
  \<close>
  The field \<^verbatim>\<open>sorted\<close> is called \<open>sorted_xs\<close> here, since \<open>sorted\<close> is the
  list predicate of HOL. Methods take the receiver's state and return the new state
  next to their result; a method that can panic returns a sum.
\<close>

type_synonym int64 = "64 word"

record Series =
  points :: "int64 \<rightharpoonup> int64"
  sorted_xs :: "int64 list"
  unsorted :: "int64 list"

datatype panic = IndexOutOfRange | SliceBoundsOutOfRange

text \<open>Reading a Go map at a key that is absent gives the zero value.\<close>

definition lookup0 :: "(int64 \<rightharpoonup> int64) \<Rightarrow> int64 \<Rightarrow> int64" where
  "lookup0 m x = (case m x of Some y \<Rightarrow> y | None \<Rightarrow> 0)"

definition NewSeries :: Series where
  "NewSeries = \<lparr>points = Map.empty, sorted_xs = [], unsorted = []\<rparr>"

text \<open>
  \<^verbatim>\<open>for key, val := range data\<close> visits every entry of the map once, in an order
  Go leaves open. The model takes the entries in the order the loop visits them.
\<close>

definition is_range_of :: "(int64 \<times> int64) list \<Rightarrow> (int64 \<rightharpoonup> int64) \<Rightarrow> bool" where
  "is_range_of kvs data = (distinct (map fst kvs) \<and> map_of kvs = data)"

fun NewSeriesData_loop ::
  "(int64 \<times> int64) list \<Rightarrow> (int64 \<rightharpoonup> int64) \<Rightarrow> int64 list
     \<Rightarrow> (int64 \<rightharpoonup> int64) \<times> int64 list" where
  "NewSeriesData_loop [] pts uns = (pts, uns)"
| "NewSeriesData_loop ((key, val) # kvs) pts uns =
     NewSeriesData_loop kvs (pts(key \<mapsto> val)) (uns @ [key])"

definition NewSeriesData :: "(int64 \<times> int64) list \<Rightarrow> Series" where
  "NewSeriesData kvs =
     (case NewSeriesData_loop kvs Map.empty [] of
        (pts, uns) \<Rightarrow> \<lparr>points = pts, sorted_xs = [], unsorted = uns\<rparr>)"

text \<open>
  \<^verbatim>\<open>sort.Slice(s.sorted, func(i, j int) bool { return s.sorted[i] < s.sorted[j] })\<close>
  orders the slice by the signed value of its elements. The sort of the Go library is
  not stable, but elements that compare equal are equal numbers, so the resulting
  slice is the one \<open>sort_key sint\<close> gives.
\<close>

definition sort_S :: "Series \<Rightarrow> Series" where
  "sort_S s =
     (if length (unsorted s) = 0 then s
      else s\<lparr>sorted_xs := sort_key sint (sorted_xs s @ unsorted s), unsorted := []\<rparr>)"

text \<open>
  The loop of \<^verbatim>\<open>find\<close>. The bounds \<open>i\<close> and \<open>j\<close> are indices, never negative, so
  they are natural numbers here, and Go's truncating division is \<open>div\<close>.
\<close>

function find_loop :: "int64 list \<Rightarrow> int64 \<Rightarrow> nat \<Rightarrow> nat \<Rightarrow> nat" where
  "find_loop xs x i j =
     (if 1 < j - i then
        (let half = (i + j + 1) div 2 in
         if x = xs ! half then half
         else if xs ! half <s x then find_loop xs x half j
         else find_loop xs x i half)
      else i)"
  by pat_completeness auto
termination
  by (relation "measure (\<lambda>(xs, x, i, j). j - i)") auto

definition find_S :: "Series \<Rightarrow> int64 \<Rightarrow> int" where
  "find_S s x =
     (if length (sorted_xs s) = 0 \<or> x <s sorted_xs s ! 0 then - 1
      else int (find_loop (sorted_xs s) x 0 (length (sorted_xs s))))"

definition Size :: "Series \<Rightarrow> int" where
  "Size s = int (card (dom (points s)))"

definition Has :: "Series \<Rightarrow> int64 \<Rightarrow> bool" where
  "Has s x = (case points s x of Some _ \<Rightarrow> True | None \<Rightarrow> False)"

definition Set :: "Series \<Rightarrow> int64 \<Rightarrow> int64 \<Rightarrow> Series" where
  "Set s x y =
     (case points s x of
        None \<Rightarrow> s\<lparr>unsorted := unsorted s @ [x], points := (points s)(x \<mapsto> y)\<rparr>
      | Some _ \<Rightarrow> s\<lparr>points := (points s)(x \<mapsto> y)\<rparr>)"

definition Get :: "Series \<Rightarrow> int64 \<Rightarrow> int64 \<times> Series" where
  "Get s x =
     (case points s x of
        Some y \<Rightarrow> (y, s)
      | None \<Rightarrow>
          (let s1 = sort_S s; i = find_S s1 x in
           if i < 0 then (0, s1)
           else (lookup0 (points s1) (sorted_xs s1 ! nat i), s1)))"

text \<open>
  \<^verbatim>\<open>s.sorted[:i]\<close> panics when \<open>i\<close> is negative; \<open>i + 1\<close> never exceeds the length.
\<close>

definition Remove :: "Series \<Rightarrow> int64 \<Rightarrow> panic + Series" where
  "Remove s x =
     (case points s x of
        None \<Rightarrow> Inr s
      | Some _ \<Rightarrow>
          (let s1 = sort_S s; i = find_S s1 x in
           if i < 0 then Inl SliceBoundsOutOfRange
           else Inr (s1\<lparr>sorted_xs := take (nat i) (sorted_xs s1) @ drop (nat i + 1) (sorted_xs s1),
                        points := (points s1)(x := None)\<rparr>)))"

text \<open>
  The loop of \<^verbatim>\<open>Compact\<close> over \<^verbatim>\<open>s.sorted\<close>, with its index, the map, \<^verbatim>\<open>newSorted\<close>
  and \<^verbatim>\<open>lastY\<close>.
\<close>

fun Compact_loop ::
  "nat \<Rightarrow> int64 list \<Rightarrow> (int64 \<rightharpoonup> int64) \<Rightarrow> int64 list \<Rightarrow> int64
     \<Rightarrow> (int64 \<rightharpoonup> int64) \<times> int64 list" where
  "Compact_loop i [] pts newSorted lastY = (pts, newSorted)"
| "Compact_loop i (x # xs) pts newSorted lastY =
     (if 0 < i then
        (if lookup0 pts x = lastY then Compact_loop (i + 1) xs (pts(x := None)) newSorted lastY
         else Compact_loop (i + 1) xs pts (newSorted @ [x]) (lookup0 pts x))
      else Compact_loop (i + 1) xs pts newSorted lastY)"

definition Compact :: "Series \<Rightarrow> panic + Series" where
  "Compact s =
     (if Size s < 2 then Inr s
      else
        (let s1 = sort_S s in
         case sorted_xs s1 of
           [] \<Rightarrow> Inl IndexOutOfRange
         | x0 # _ \<Rightarrow>
             (case Compact_loop 0 (sorted_xs s1) (points s1) [x0] (lookup0 (points s1) x0) of
                (pts, newSorted) \<Rightarrow> Inr (s1\<lparr>points := pts, sorted_xs := newSorted\<rparr>))))"

definition Xs :: "Series \<Rightarrow> int64 list \<times> Series" where
  "Xs s = (let s1 = sort_S s in (sorted_xs s1, s1))"

definition X0 :: "Series \<Rightarrow> int64 \<times> Series" where
  "X0 s =
     (let s1 = sort_S s in
      if length (sorted_xs s1) = 0 then (0, s1) else (sorted_xs s1 ! 0, s1))"

definition Floor :: "Series \<Rightarrow> int64 \<Rightarrow> (int64 \<times> bool) \<times> Series" where
  "Floor s x =
     (if Size s = 0 then ((0, False), s)
      else
        (let s1 = sort_S s; i = find_S s1 x in
         if i < 0 then ((0, False), s1)
         else ((sorted_xs s1 ! nat i, True), s1)))"

definition Ceiling :: "Series \<Rightarrow> int64 \<Rightarrow> (int64 \<times> bool) \<times> Series" where
  "Ceiling s x =
     (if Size s = 0 then ((0, False), s)
      else
        (case points s x of
           Some _ \<Rightarrow> ((x, True), s)
         | None \<Rightarrow>
             (let s1 = sort_S s; i = find_S s1 x + 1 in
              if i \<ge> int (length (sorted_xs s1)) then ((0, False), s1)
              else ((sorted_xs s1 ! nat i, True), s1))))"

text \<open>\<^verbatim>\<open>Copy\<close> returns the new series and the receiver, which it has sorted.\<close>

definition Copy :: "Series \<Rightarrow> Series \<times> Series" where
  "Copy s =
     (let s1 = sort_S s in
      (\<lparr>points = points s1, sorted_xs = sorted_xs s1, unsorted = []\<rparr>, s1))"

definition Equals :: "Series \<Rightarrow> Series \<Rightarrow> bool" where
  "Equals s s0 = (points s = points s0)"

section \<open>Combine\<close>

text \<open>
  \<^verbatim>\<open>Combine\<close> takes pointers to series and calls \<^verbatim>\<open>Get\<close> on them, which may sort
  them; the same pointer may occur twice in the list. The series live in a store, a
  pointer is an address, and \<^verbatim>\<open>Combine\<close> returns the store next to the new series.
  The pointers of the list are not nil. The reducer \<^verbatim>\<open>func(...int64) int64\<close> is a
  function on lists.
\<close>

type_synonym ref = nat

type_synonym store = "ref \<Rightarrow> Series"

text \<open>
  The innermost loop:
  \<^verbatim>\<open>for i, t0 := range list { valueSet[i] = t0.Get(key) }\<close>
\<close>

fun Combine_values ::
  "nat \<Rightarrow> ref list \<Rightarrow> int64 \<Rightarrow> int64 list \<Rightarrow> store \<Rightarrow> int64 list \<times> store" where
  "Combine_values i [] key valueSet st = (valueSet, st)"
| "Combine_values i (t0 # ts) key valueSet st =
     (case Get (st t0) key of
        (y, s') \<Rightarrow> Combine_values (i + 1) ts key (valueSet[i := y]) (st(t0 := s')))"

text \<open>
  The loop \<^verbatim>\<open>for key := range s.points\<close>, over the keys in the order the loop
  visits them. Its state is \<^verbatim>\<open>points\<close>, \<^verbatim>\<open>unsorted\<close>, \<^verbatim>\<open>valueSet\<close> and the store.
\<close>

fun Combine_keys ::
  "(int64 list \<Rightarrow> int64) \<Rightarrow> ref list \<Rightarrow> int64 list
     \<Rightarrow> (int64 \<rightharpoonup> int64) \<times> int64 list \<times> int64 list \<times> store
     \<Rightarrow> (int64 \<rightharpoonup> int64) \<times> int64 list \<times> int64 list \<times> store" where
  "Combine_keys f list [] acc = acc"
| "Combine_keys f list (key # keys) (pts, uns, valueSet, st) =
     (case pts key of
        None \<Rightarrow>
          (case Combine_values 0 list key valueSet st of
             (vs, st') \<Rightarrow> Combine_keys f list keys (pts(key \<mapsto> f vs), uns @ [key], vs, st'))
      | Some _ \<Rightarrow> Combine_keys f list keys (pts, uns, valueSet, st))"

text \<open>
  The outer loop \<^verbatim>\<open>for _, s := range list\<close>; each series comes with the order in
  which its points are ranged over.
\<close>

fun Combine_series ::
  "(int64 list \<Rightarrow> int64) \<Rightarrow> ref list \<Rightarrow> (ref \<times> int64 list) list
     \<Rightarrow> (int64 \<rightharpoonup> int64) \<times> int64 list \<times> int64 list \<times> store
     \<Rightarrow> (int64 \<rightharpoonup> int64) \<times> int64 list \<times> int64 list \<times> store" where
  "Combine_series f list [] acc = acc"
| "Combine_series f list ((s, keys) # rest) acc =
     Combine_series f list rest (Combine_keys f list keys acc)"

definition Combine ::
  "(int64 list \<Rightarrow> int64) \<Rightarrow> ref list \<Rightarrow> int64 list list \<Rightarrow> store \<Rightarrow> Series \<times> store" where
  "Combine f list orders st =
     (case Combine_series f list (zip list orders)
             (Map.empty, [], replicate (length list) 0, st) of
        (pts, uns, valueSet, st') \<Rightarrow> (\<lparr>points = pts, sorted_xs = [], unsorted = uns\<rparr>, st'))"

text \<open>
  The orders are orders in which Go can range over the maps: one for each series of the
  list, visiting each key of its points once.
\<close>

definition range_orders :: "store \<Rightarrow> ref list \<Rightarrow> int64 list list \<Rightarrow> bool" where
  "range_orders st list orders =
     list_all2 (\<lambda>r keys. distinct keys \<and> set keys = dom (points (st r))) list orders"

text \<open>The reducer \<^verbatim>\<open>Diff\<close>: the first value minus all the remaining values.\<close>

fun Diff_loop :: "nat \<Rightarrow> int64 list \<Rightarrow> int64 \<Rightarrow> int64" where
  "Diff_loop i [] diff = diff"
| "Diff_loop i (val # vals) diff =
     Diff_loop (i + 1) vals (if i = 0 then val else diff - val)"

definition Diff :: "int64 list \<Rightarrow> int64" where
  "Diff vals = Diff_loop 0 vals 0"

text \<open>The reducer \<^verbatim>\<open>Any\<close>: one if any of the values is nonzero, zero otherwise.\<close>

fun Any_loop :: "int64 list \<Rightarrow> int64 \<Rightarrow> int64" where
  "Any_loop [] any = any"
| "Any_loop (val # vals) any = Any_loop vals (if val \<noteq> 0 then 1 else any)"

definition Any :: "int64 list \<Rightarrow> int64" where
  "Any vals = Any_loop vals 0"


section \<open>The invariant of a series\<close>

text \<open>
  The comment in the struct: all of the keys in the points map appear exactly once in
  either \<^verbatim>\<open>sorted\<close> or \<^verbatim>\<open>unsorted\<close>, and all of the keys in \<^verbatim>\<open>sorted\<close> are in
  order. The fields are not exported, so the states of a series are those the
  operations of the package produce; all of them satisfy \<open>series_inv\<close> (lemma
  \<open>reachable_series_inv\<close> below). A record that violates it is not a state of a series,
  and on such a record \<^verbatim>\<open>Remove\<close> and \<^verbatim>\<open>Compact\<close> can panic. The properties of
  single series below are proved for every record that satisfies \<open>series_inv\<close>.
\<close>

definition strictly_increasing :: "int64 list \<Rightarrow> bool" where
  "strictly_increasing xs = sorted_wrt (\<lambda>a b. a <s b) xs"

definition series_inv :: "Series \<Rightarrow> bool" where
  "series_inv s =
     (dom (points s) = set (sorted_xs s) \<union> set (unsorted s) \<and>
      set (sorted_xs s) \<inter> set (unsorted s) = {} \<and>
      distinct (sorted_xs s) \<and> distinct (unsorted s) \<and>
      strictly_increasing (sorted_xs s))"

text \<open>
  The index \<^verbatim>\<open>find\<close> is documented to return: the largest \<open>r\<close> with
  \<open>xs ! r \<le> x\<close>, in a list in ascending order.
\<close>

definition floor_index :: "int64 list \<Rightarrow> int64 \<Rightarrow> nat \<Rightarrow> bool" where
  "floor_index xs x r =
     (r < length xs \<and> xs ! r \<le>s x \<and> (if Suc r < length xs then x <s xs ! Suc r else True))"

text \<open>
  The keys that the loop of \<^verbatim>\<open>Compact\<close> appends to \<^verbatim>\<open>newSorted\<close>, as a function of
  the map, \<^verbatim>\<open>lastY\<close> and the keys still to visit. It is used to describe the loop's
  result.
\<close>

fun keep :: "(int64 \<rightharpoonup> int64) \<Rightarrow> int64 \<Rightarrow> int64 list \<Rightarrow> int64 list" where
  "keep m lastY [] = []"
| "keep m lastY (x # xs) =
     (if lookup0 m x = lastY then keep m lastY xs else x # keep m (lookup0 m x) xs)"

text \<open>
  The states of a series that the public operations can produce, starting from a
  constructor. A Go map holds each key once, so \<^verbatim>\<open>NewSeriesData\<close> ranges over entries
  with distinct keys. \<^verbatim>\<open>Has\<close>, \<^verbatim>\<open>Size\<close> and \<^verbatim>\<open>Equals\<close> only read the points and
  leave the state as it is; \<^verbatim>\<open>Copy\<close> gives two series, the copy and the receiver.
\<close>

inductive reachable :: "Series \<Rightarrow> bool" where
  reach_NewSeries: "reachable NewSeries"
| reach_NewSeriesData: "distinct (map fst kvs) \<Longrightarrow> reachable (NewSeriesData kvs)"
| reach_Set: "reachable s \<Longrightarrow> reachable (Set s x y)"
| reach_Remove: "reachable s \<Longrightarrow> Remove s x = Inr s' \<Longrightarrow> reachable s'"
| reach_Compact: "reachable s \<Longrightarrow> Compact s = Inr s' \<Longrightarrow> reachable s'"
| reach_Get: "reachable s \<Longrightarrow> reachable (snd (Get s x))"
| reach_Xs: "reachable s \<Longrightarrow> reachable (snd (Xs s))"
| reach_X0: "reachable s \<Longrightarrow> reachable (snd (X0 s))"
| reach_Floor: "reachable s \<Longrightarrow> reachable (snd (Floor s x))"
| reach_Ceiling: "reachable s \<Longrightarrow> reachable (snd (Ceiling s x))"
| reach_Copy_new: "reachable s \<Longrightarrow> reachable (fst (Copy s))"
| reach_Copy_receiver: "reachable s \<Longrightarrow> reachable (snd (Copy s))"
| reach_Has: "reachable s \<Longrightarrow> Has s x = b \<Longrightarrow> reachable s"
| reach_Size: "reachable s \<Longrightarrow> Size s = n \<Longrightarrow> reachable s"
| reach_Equals: "reachable s \<Longrightarrow> reachable s0 \<Longrightarrow> Equals s s0 = b \<Longrightarrow> reachable s"

text \<open>
  A store in which every series is the series of another store, or that series with its
  pending keys merged.
\<close>

definition sorted_from :: "store \<Rightarrow> store \<Rightarrow> bool" where
  "sorted_from st0 st = (\<forall>r. st r = st0 r \<or> st r = sort_S (st0 r))"

text \<open>What the loops of \<open>Combine\<close> keep true of their state.\<close>

definition combine_acc ::
  "(int64 list \<Rightarrow> int64) \<Rightarrow> ref list \<Rightarrow> store
     \<Rightarrow> (int64 \<rightharpoonup> int64) \<times> int64 list \<times> int64 list \<times> store \<Rightarrow> bool" where
  "combine_acc f list st0 acc =
     (case acc of (pts, uns, vs, st) \<Rightarrow>
        sorted_from st0 st \<and> length vs = length list \<and> distinct uns \<and> set uns = dom pts \<and>
        (\<forall>k \<in> dom pts. pts k = Some (f (map (\<lambda>r. fst (Get (st0 r) k)) list))))"

section \<open>Properties\<close>

lemma sint_inj: "sint (a :: int64) = sint b \<longleftrightarrow> a = b"
  by (auto intro: signed_word_eqI)

lemma strictly_increasing_iff:
  "strictly_increasing xs \<longleftrightarrow> sorted (map sint xs) \<and> distinct xs"
proof -
  have "strictly_increasing xs \<longleftrightarrow> sorted_wrt (<) (map sint xs)"
    by (simp add: strictly_increasing_def sorted_wrt_map word_sless_alt)
  also have "\<dots> \<longleftrightarrow> sorted (map sint xs) \<and> distinct (map sint xs)"
    by (rule strict_sorted_iff)
  also have "distinct (map sint xs) \<longleftrightarrow> distinct xs"
    by (simp add: distinct_map inj_on_def sint_inj)
  finally show ?thesis .
qed

lemma strictly_increasing_sort:
  "distinct xs \<Longrightarrow> strictly_increasing (sort_key sint xs)"
  by (simp add: strictly_increasing_iff)

lemma strictly_increasing_nth:
  "strictly_increasing xs \<Longrightarrow> i < j \<Longrightarrow> j < length xs \<Longrightarrow> xs ! i <s xs ! j"
  unfolding strictly_increasing_def by (rule sorted_wrt_nth_less)

lemma sort_S_idem: "sort_S (sort_S s) = sort_S s"
  by (simp add: sort_S_def)

lemma points_sort_S: "points (sort_S s) = points s"
  by (simp add: sort_S_def)

lemma unsorted_sort_S: "unsorted (sort_S s) = []"
  by (simp add: sort_S_def)

lemma set_sorted_sort_S: "set (sorted_xs (sort_S s)) = set (sorted_xs s) \<union> set (unsorted s)"
  by (simp add: sort_S_def)

lemma series_inv_sort_S: "series_inv s \<Longrightarrow> series_inv (sort_S s)"
  by (auto simp: series_inv_def sort_S_def strictly_increasing_sort)

lemma series_inv_sorted_dom:
  "series_inv s \<Longrightarrow> set (sorted_xs (sort_S s)) = dom (points s)"
  by (simp add: series_inv_def set_sorted_sort_S)

lemma series_inv_sorted_incr:
  "series_inv s \<Longrightarrow> strictly_increasing (sorted_xs (sort_S s))"
  using series_inv_sort_S [of s] by (simp add: series_inv_def)


lemma find_loop_floor:
  "strictly_increasing xs \<Longrightarrow> i < j \<Longrightarrow> j \<le> length xs \<Longrightarrow> xs ! i \<le>s x
     \<Longrightarrow> (j < length xs \<Longrightarrow> x <s xs ! j) \<Longrightarrow> floor_index xs x (find_loop xs x i j)"
proof (induction xs x i j rule: find_loop.induct)
  case (1 xs x i j)
  let ?half = "(i + j + 1) div 2"
  show ?case
  proof (cases "1 < j - i")
    case False
    with "1.prems" have "j = Suc i" by simp
    with False "1.prems" show ?thesis
      by (subst find_loop.simps) (auto simp: floor_index_def)
  next
    case True
    then have hb: "i < ?half" "?half < j" by linarith+
    show ?thesis
    proof (cases "x = xs ! ?half")
      case eq: True
      have "floor_index xs x ?half"
        using hb "1.prems"(1,3) eq strictly_increasing_nth [of xs ?half "Suc ?half"]
        by (auto simp: floor_index_def)
      with True eq show ?thesis
        by (subst find_loop.simps) (simp add: Let_def)
    next
      case neq: False
      show ?thesis
      proof (cases "xs ! ?half <s x")
        case lt: True
        have "floor_index xs x (find_loop xs x ?half j)"
          using "1.IH"(1) [OF True refl neq lt] "1.prems" hb lt by auto
        with True neq lt show ?thesis
          by (subst find_loop.simps) (simp add: Let_def)
      next
        case ge: False
        then have "x <s xs ! ?half" using neq by auto
        then have "floor_index xs x (find_loop xs x i ?half)"
          using "1.IH"(2) [OF True refl neq ge] "1.prems" hb by auto
        with True neq ge show ?thesis
          by (subst find_loop.simps) (simp add: Let_def)
      qed
    qed
  qed
qed

lemma sle_sint: "(a \<le>s b) = (sint a \<le> sint b)" for a b :: int64
  by (rule word_sle_eq)

lemma sless_sint: "(a <s b) = (sint a < sint b)" for a b :: int64
  by (rule word_sless_alt)

lemma strictly_increasing_nth_le:
  "strictly_increasing xs \<Longrightarrow> i \<le> j \<Longrightarrow> j < length xs \<Longrightarrow> xs ! i \<le>s xs ! j"
  using strictly_increasing_nth [of xs i j] by (cases "i = j") auto

lemma floor_index_greatest:
  assumes "strictly_increasing xs" "floor_index xs x r" "k \<in> set xs" "k \<le>s x"
  shows "k \<le>s xs ! r"
proof -
  from assms(3) obtain n where n: "n < length xs" "xs ! n = k"
    by (auto simp: in_set_conv_nth)
  show ?thesis
  proof (cases "n \<le> r")
    case True
    with assms(1,2) n show ?thesis
      using strictly_increasing_nth_le [of xs n r] by (simp add: floor_index_def)
  next
    case False
    then have "Suc r \<le> n" by simp
    with assms(1) n have "xs ! Suc r \<le>s k"
      using strictly_increasing_nth_le [of xs "Suc r" n] by simp
    moreover from False n assms(2) have "x <s xs ! Suc r"
      by (auto simp: floor_index_def split: if_splits)
    ultimately show ?thesis using assms(4) by (simp add: sle_sint sless_sint)
  qed
qed

lemma floor_index_mem:
  assumes "strictly_increasing xs" "floor_index xs x r" "x \<in> set xs"
  shows "xs ! r = x"
proof -
  have "x \<le>s xs ! r"
    using floor_index_greatest [OF assms(1,2,3)] by simp
  moreover have "xs ! r \<le>s x" using assms(2) by (simp add: floor_index_def)
  ultimately show ?thesis by (simp add: sle_sint flip: sint_inj)
qed

lemma find_S_cases:
  assumes "strictly_increasing (sorted_xs s)"
  shows "(find_S s x = - 1 \<and> (\<forall>k \<in> set (sorted_xs s). x <s k)) \<or>
         (\<exists>r. find_S s x = int r \<and> floor_index (sorted_xs s) x r)"
proof (cases "sorted_xs s = [] \<or> x <s sorted_xs s ! 0")
  case True
  have "x <s k" if "k \<in> set (sorted_xs s)" for k
  proof -
    from that obtain n where n: "n < length (sorted_xs s)" "sorted_xs s ! n = k"
      by (auto simp: in_set_conv_nth)
    with assms have "sorted_xs s ! 0 \<le>s k"
      using strictly_increasing_nth_le [of "sorted_xs s" 0 n] by simp
    moreover from True that have "x <s sorted_xs s ! 0" by auto
    ultimately show ?thesis by (simp add: sle_sint sless_sint)
  qed
  with True show ?thesis by (auto simp: find_S_def)
next
  case False
  then have ne: "0 < length (sorted_xs s)" and le: "sorted_xs s ! 0 \<le>s x"
    by (auto simp: sle_sint sless_sint)
  have "floor_index (sorted_xs s) x (find_loop (sorted_xs s) x 0 (length (sorted_xs s)))"
    by (rule find_loop_floor [OF assms ne _ le]) simp_all
  with False show ?thesis by (auto simp: find_S_def)
qed

lemma find_S_stored:
  assumes "strictly_increasing (sorted_xs s)" "x \<in> set (sorted_xs s)"
  shows "\<exists>r. find_S s x = int r \<and> r < length (sorted_xs s) \<and> sorted_xs s ! r = x"
proof -
  from find_S_cases [OF assms(1), of x] assms(2)
  obtain r where r: "find_S s x = int r" "floor_index (sorted_xs s) x r"
    by (auto simp: sless_sint)
  with floor_index_mem [OF assms(1) r(2) assms(2)] show ?thesis
    by (auto simp: floor_index_def)
qed

lemma Get_stored: "points s x = Some y \<Longrightarrow> Get s x = (y, s)"
  by (simp add: Get_def)

lemma Get_floor_cases:
  assumes "series_inv s"
  shows "(\<exists>x0. x0 \<in> dom (points s) \<and> x0 \<le>s x \<and>
            (\<forall>z \<in> dom (points s). z \<le>s x \<longrightarrow> z \<le>s x0) \<and>
            points s x0 = Some (fst (Get s x))) \<or>
         ((\<forall>z \<in> dom (points s). \<not> z \<le>s x) \<and> fst (Get s x) = 0)"
proof (cases "points s x")
  case (Some y)
  then have "x \<in> dom (points s)" "points s x = Some (fst (Get s x))"
    by (auto simp: Get_stored)
  then show ?thesis by (intro disjI1 exI [of _ x]) auto
next
  case None
  let ?s1 = "sort_S s"
  have incr: "strictly_increasing (sorted_xs ?s1)"
    by (rule series_inv_sorted_incr [OF assms])
  have dom: "set (sorted_xs ?s1) = dom (points s)"
    by (rule series_inv_sorted_dom [OF assms])
  from find_S_cases [OF incr, of x] show ?thesis
  proof (elim disjE conjE exE)
    assume neg: "find_S ?s1 x = - 1" and above: "\<forall>k \<in> set (sorted_xs ?s1). x <s k"
    have "\<not> z \<le>s x" if "z \<in> dom (points s)" for z
    proof -
      from that dom have "z \<in> set (sorted_xs ?s1)" by simp
      with above have "x <s z" by blast
      then show ?thesis by (simp add: sle_sint sless_sint)
    qed
    moreover have "fst (Get s x) = 0"
      using None neg by (simp add: Get_def Let_def)
    ultimately show ?thesis by blast
  next
    fix r
    assume r: "find_S ?s1 x = int r" "floor_index (sorted_xs ?s1) x r"
    let ?x0 = "sorted_xs ?s1 ! r"
    from r(2) have "?x0 \<in> set (sorted_xs ?s1)" "?x0 \<le>s x"
      by (auto simp: floor_index_def)
    moreover have "\<forall>z \<in> dom (points s). z \<le>s x \<longrightarrow> z \<le>s ?x0"
      using floor_index_greatest [OF incr r(2)] dom by auto
    moreover have "fst (Get s x) = lookup0 (points s) ?x0"
      using None r(1) by (simp add: Get_def Let_def points_sort_S)
    ultimately show ?thesis using dom
      by (intro disjI1 exI [of _ ?x0]) (auto simp: lookup0_def)
  qed
qed

lemma Size_pos: "points s x = Some y \<Longrightarrow> 0 < Size s"
  by (auto simp: Size_def card_gt_0_iff)

lemma Floor_stored:
  assumes "series_inv s" "points s x = Some y"
  shows "fst (Floor s x) = (x, True)"
proof -
  let ?s1 = "sort_S s"
  have "x \<in> set (sorted_xs ?s1)"
    using assms by (auto simp: series_inv_sorted_dom)
  from find_S_stored [OF series_inv_sorted_incr [OF assms(1)] this]
  obtain r where "find_S ?s1 x = int r" "sorted_xs ?s1 ! r = x" by auto
  with Size_pos [OF assms(2)] show ?thesis
    by (simp add: Floor_def Let_def)
qed

lemma Ceiling_stored: "points s x = Some y \<Longrightarrow> Ceiling s x = ((x, True), s)"
  using Size_pos [of s x y] by (simp add: Ceiling_def)

lemma strictly_increasing_split:
  assumes "strictly_increasing xs" "r < length xs"
  shows "strictly_increasing (take r xs @ drop (Suc r) xs)"
    and "set (take r xs @ drop (Suc r) xs) = set xs - {xs ! r}"
proof -
  have xs: "xs = take r xs @ xs ! r # drop (Suc r) xs"
    using assms(2) by (simp add: Cons_nth_drop_Suc)
  have "sorted_wrt (\<lambda>a b. a <s b) (take r xs @ xs ! r # drop (Suc r) xs)"
    using assms(1) xs by (simp add: strictly_increasing_def)
  then show "strictly_increasing (take r xs @ drop (Suc r) xs)"
    by (auto simp: strictly_increasing_def sorted_wrt_append)
  have "distinct (take r xs @ xs ! r # drop (Suc r) xs)"
    using assms(1) xs by (simp add: strictly_increasing_iff)
  moreover have "set xs = set (take r xs @ xs ! r # drop (Suc r) xs)"
    using xs by simp
  ultimately show "set (take r xs @ drop (Suc r) xs) = set xs - {xs ! r}"
    by auto
qed

lemma Remove_absent: "points s x = None \<Longrightarrow> Remove s x = Inr s"
  by (simp add: Remove_def)

lemma Remove_stored:
  assumes "series_inv s" "points s x = Some y"
  shows "\<exists>s'. Remove s x = Inr s' \<and> points s' = (points s)(x := None) \<and> series_inv s'"
proof -
  let ?s1 = "sort_S s"
  let ?xs = "sorted_xs ?s1"
  have incr: "strictly_increasing ?xs" by (rule series_inv_sorted_incr [OF assms(1)])
  have dom: "set ?xs = dom (points s)" by (rule series_inv_sorted_dom [OF assms(1)])
  then have "x \<in> set ?xs" using assms(2) by auto
  from find_S_stored [OF incr this]
  obtain r where r: "find_S ?s1 x = int r" "r < length ?xs" "?xs ! r = x" by auto
  let ?s' = "?s1\<lparr>sorted_xs := take r ?xs @ drop (Suc r) ?xs, points := (points ?s1)(x := None)\<rparr>"
  have "Remove s x = Inr ?s'"
    using assms(2) r(1) by (simp add: Remove_def Let_def)
  moreover have "points ?s' = (points s)(x := None)"
    by (simp add: points_sort_S)
  moreover have "series_inv ?s'"
    using strictly_increasing_split [OF incr r(2)] r(3) dom
    by (auto simp: series_inv_def unsorted_sort_S points_sort_S strictly_increasing_iff)
  ultimately show ?thesis by blast
qed

lemma Size_remove:
  assumes "points s x = Some y" "points s' = (points s)(x := None)"
  shows "Size s' = Size s - 1"
proof -
  have mem: "x \<in> dom (points s)" using assms(1) by auto
  then have "0 < card (dom (points s))" by (auto simp: card_gt_0_iff)
  moreover have "card (dom (points s')) = card (dom (points s)) - 1"
    using mem assms(2) by (simp add: card_Diff_singleton)
  ultimately show ?thesis by (simp add: Size_def of_nat_diff)
qed

lemma NewSeriesData_loop_eq:
  "NewSeriesData_loop kvs pts uns = (pts ++ map_of (rev kvs), uns @ map fst kvs)"
proof (induction kvs arbitrary: pts uns)
  case Nil
  show ?case by simp
next
  case (Cons kv kvs)
  obtain k v where kv: "kv = (k, v)" by (cases kv)
  have eq: "pts(k \<mapsto> v) ++ map_of (rev kvs) = pts ++ map_of (rev (kv # kvs))"
    unfolding kv by (simp add: map_add_def fun_eq_iff split: option.splits)
  have "NewSeriesData_loop (kv # kvs) pts uns = NewSeriesData_loop kvs (pts(k \<mapsto> v)) (uns @ [k])"
    unfolding kv by simp
  also have "\<dots> = (pts(k \<mapsto> v) ++ map_of (rev kvs), (uns @ [k]) @ map fst kvs)"
    by (rule Cons.IH)
  also have "\<dots> = (pts ++ map_of (rev (kv # kvs)), uns @ map fst (kv # kvs))"
    unfolding eq by (simp add: kv)
  finally show ?case .
qed

lemma map_of_rev_distinct: "distinct (map fst kvs) \<Longrightarrow> map_of (rev kvs) = map_of kvs"
  by (subst map_of_inject_set) (simp_all flip: rev_map)

lemma points_NewSeriesData: "points (NewSeriesData kvs) = map_of (rev kvs)"
  by (simp add: NewSeriesData_def NewSeriesData_loop_eq)

lemma points_NewSeriesData_range:
  "is_range_of kvs data \<Longrightarrow> points (NewSeriesData kvs) = data"
  by (simp add: points_NewSeriesData is_range_of_def map_of_rev_distinct)

lemma sorted_NewSeriesData: "sorted_xs (NewSeriesData kvs) = []"
  by (simp add: NewSeriesData_def NewSeriesData_loop_eq)

lemma unsorted_NewSeriesData: "unsorted (NewSeriesData kvs) = map fst kvs"
  by (simp add: NewSeriesData_def NewSeriesData_loop_eq)

lemma series_inv_NewSeries: "series_inv NewSeries"
  by (simp add: series_inv_def NewSeries_def strictly_increasing_def)

lemma series_inv_NewSeriesData:
  "distinct (map fst kvs) \<Longrightarrow> series_inv (NewSeriesData kvs)"
  by (simp add: series_inv_def points_NewSeriesData sorted_NewSeriesData
      unsorted_NewSeriesData strictly_increasing_def dom_map_of_conv_image_fst)

lemma series_inv_Set: "series_inv s \<Longrightarrow> series_inv (Set s x y)"
  by (auto simp: series_inv_def Set_def split: option.splits)

lemma snd_Get: "snd (Get s x) = s \<or> snd (Get s x) = sort_S s"
  by (simp add: Get_def Let_def split: option.splits)

lemma series_inv_Get: "series_inv s \<Longrightarrow> series_inv (snd (Get s x))"
  using snd_Get [of s x] by (auto simp: series_inv_sort_S)

lemma series_inv_Xs: "series_inv s \<Longrightarrow> series_inv (snd (Xs s))"
  by (simp add: Xs_def Let_def series_inv_sort_S)

lemma series_inv_X0: "series_inv s \<Longrightarrow> series_inv (snd (X0 s))"
  by (simp add: X0_def Let_def series_inv_sort_S)

lemma series_inv_Floor: "series_inv s \<Longrightarrow> series_inv (snd (Floor s x))"
  by (simp add: Floor_def Let_def series_inv_sort_S)

lemma series_inv_Ceiling: "series_inv s \<Longrightarrow> series_inv (snd (Ceiling s x))"
  by (simp add: Ceiling_def Let_def series_inv_sort_S split: option.splits)

lemma series_inv_Copy:
  assumes "series_inv s"
  shows "series_inv (fst (Copy s))" and "series_inv (snd (Copy s))"
proof -
  have "series_inv (sort_S s)" by (rule series_inv_sort_S [OF assms])
  then show "series_inv (snd (Copy s))" by (simp add: Copy_def Let_def)
  from \<open>series_inv (sort_S s)\<close> show "series_inv (fst (Copy s))"
    by (simp add: Copy_def Let_def series_inv_def unsorted_sort_S)
qed

section \<open>The claims about Get, Floor, Ceiling and Remove\<close>

text \<open>
  C1. In a series that satisfies the invariant, \<open>Get x\<close> returns the stored y at \<open>x\<close> when
  \<open>x\<close> is a stored key. In every case it returns the y of the greatest stored key
  \<open>x0 \<le> x\<close>, and 0 when no stored key is \<open>\<le> x\<close>; so \<open>Get\<close> on a series with no
  points returns 0.
\<close>

theorem Get_floor_interpolation:
  assumes "series_inv s"
  shows "(\<forall>y. points s x = Some y \<longrightarrow> fst (Get s x) = y) \<and>
         ((\<exists>x0. x0 \<in> dom (points s) \<and> x0 \<le>s x \<and>
             (\<forall>z \<in> dom (points s). z \<le>s x \<longrightarrow> z \<le>s x0) \<and>
             points s x0 = Some (fst (Get s x))) \<or>
          ((\<forall>z \<in> dom (points s). \<not> z \<le>s x) \<and> fst (Get s x) = 0)) \<and>
         (dom (points s) = {} \<longrightarrow> fst (Get s x) = 0)"
proof (intro conjI)
  show "\<forall>y. points s x = Some y \<longrightarrow> fst (Get s x) = y"
    by (simp add: Get_stored)
  show cases: "(\<exists>x0. x0 \<in> dom (points s) \<and> x0 \<le>s x \<and>
             (\<forall>z \<in> dom (points s). z \<le>s x \<longrightarrow> z \<le>s x0) \<and>
             points s x0 = Some (fst (Get s x))) \<or>
          ((\<forall>z \<in> dom (points s). \<not> z \<le>s x) \<and> fst (Get s x) = 0)"
    by (rule Get_floor_cases [OF assms])
  then show "dom (points s) = {} \<longrightarrow> fst (Get s x) = 0"
    by blast
qed

theorem Get_floor_interpolation_witness:
  "series_inv (NewSeriesData [(32, - 7), (- 5, 20)]) \<and>
   points (NewSeriesData [(32, - 7), (- 5, 20)]) 32 = Some (- 7) \<and>
   fst (Get (NewSeriesData [(32, - 7), (- 5, 20)]) 32) = - 7 \<and>
   dom (points NewSeries) = {} \<and> series_inv NewSeries \<and> fst (Get NewSeries 5) = 0"
proof -
  let ?s = "NewSeriesData [(32, - 7), (- 5, 20)]"
  have inv: "series_inv ?s"
    by (simp add: series_inv_NewSeriesData)
  have pt: "points ?s 32 = Some (- 7)"
    by (simp add: NewSeriesData_def)
  have inv0: "series_inv NewSeries"
    by (rule series_inv_NewSeries)
  have dom0: "dom (points NewSeries) = {}"
    by (simp add: NewSeries_def)
  from Get_floor_interpolation [OF inv, of 32] pt have "fst (Get ?s 32) = - 7"
    by blast
  moreover from Get_floor_interpolation [OF inv0, of 5] dom0 have "fst (Get NewSeries 5) = 0"
    by blast
  ultimately show ?thesis using inv pt inv0 dom0 by blast
qed

text \<open>
  C7. When \<open>x\<close> is a stored key of a series that satisfies the invariant, \<open>Floor x\<close>
  returns \<open>(x, true)\<close> and \<open>Ceiling x\<close> returns \<open>(x, true)\<close>; \<open>Ceiling\<close> returns
  the series as it was, the pending buffer not merged.
\<close>

theorem Floor_Ceiling_exact_key:
  assumes "series_inv s" "points s x = Some y"
  shows "fst (Floor s x) = (x, True) \<and> fst (Ceiling s x) = (x, True) \<and>
         snd (Ceiling s x) = s"
  using Floor_stored [OF assms] Ceiling_stored [OF assms(2)] by simp

theorem Floor_Ceiling_exact_key_witness:
  "series_inv (Set (Set NewSeries 7 1) 3 2) \<and>
   points (Set (Set NewSeries 7 1) 3 2) 3 = Some 2 \<and>
   fst (Floor (Set (Set NewSeries 7 1) 3 2) 3) = (3, True) \<and>
   fst (Ceiling (Set (Set NewSeries 7 1) 3 2) 3) = (3, True) \<and>
   unsorted (snd (Ceiling (Set (Set NewSeries 7 1) 3 2) 3)) = [7, 3]"
proof -
  let ?s = "Set (Set NewSeries 7 1) 3 2"
  have inv: "series_inv ?s"
    by (simp add: series_inv_Set series_inv_NewSeries)
  have pt: "points ?s 3 = Some 2"
    by (simp add: Set_def NewSeries_def)
  have uns: "unsorted ?s = [7, 3]"
    by (simp add: Set_def NewSeries_def)
  from Floor_Ceiling_exact_key [OF inv pt] uns inv pt show ?thesis by simp
qed

text \<open>
  C9. In a series that satisfies the invariant: when \<open>x\<close> is not a stored key,
  \<open>Remove x\<close> returns the series unchanged; when \<open>x\<close> is stored, \<open>Remove x\<close> returns
  (it does not panic) a series whose points are those before without \<open>x\<close>: every other
  key keeps its value, and \<open>Size\<close> is one less.
\<close>

theorem Remove_exact:
  assumes "series_inv s"
  shows "(points s x = None \<longrightarrow> Remove s x = Inr s) \<and>
         (\<forall>y. points s x = Some y \<longrightarrow>
            (\<exists>s'. Remove s x = Inr s' \<and> points s' x = None \<and>
                  (\<forall>k. k \<noteq> x \<longrightarrow> points s' k = points s k) \<and>
                  Size s' = Size s - 1))"
proof (intro conjI allI impI)
  assume "points s x = None"
  then show "Remove s x = Inr s" by (rule Remove_absent)
next
  fix y assume y: "points s x = Some y"
  from Remove_stored [OF assms y]
  obtain s' where s': "Remove s x = Inr s'" "points s' = (points s)(x := None)" by blast
  from Size_remove [OF y s'(2)] s'
  show "\<exists>s'. Remove s x = Inr s' \<and> points s' x = None \<and>
                  (\<forall>k. k \<noteq> x \<longrightarrow> points s' k = points s k) \<and>
                  Size s' = Size s - 1"
    by auto
qed

theorem Remove_exact_witness:
  "series_inv (NewSeriesData [(1, 25), (4, 2)]) \<and>
   points (NewSeriesData [(1, 25), (4, 2)]) 4 = Some 2 \<and>
   points (NewSeriesData [(1, 25), (4, 2)]) 9 = None \<and>
   Remove (NewSeriesData [(1, 25), (4, 2)]) 9 = Inr (NewSeriesData [(1, 25), (4, 2)]) \<and>
   (\<exists>s'. Remove (NewSeriesData [(1, 25), (4, 2)]) 4 = Inr s' \<and> points s' 4 = None \<and>
      points s' 1 = Some 25 \<and> Size s' = 1)"
proof -
  let ?s = "NewSeriesData [(1, 25), (4, 2)]"
  have inv: "series_inv ?s"
    by (simp add: series_inv_NewSeriesData)
  have pts: "points ?s 4 = Some 2" "points ?s 9 = None" "points ?s 1 = Some 25"
    by (simp_all add: NewSeriesData_def)
  have size: "Size ?s = 2"
    by (simp add: Size_def NewSeriesData_def)
  from Remove_exact [OF inv, of 9] pts(2) have a: "Remove ?s 9 = Inr ?s" by blast
  from Remove_exact [OF inv, of 4] pts(1)
  obtain s' where s': "Remove ?s 4 = Inr s'" "points s' 4 = None"
    "\<forall>k. k \<noteq> 4 \<longrightarrow> points s' k = points ?s k" "Size s' = Size ?s - 1"
    by blast
  from s'(3) pts(3) have "points s' 1 = Some 25" by simp
  with s' size a inv pts show ?thesis by auto
qed

section \<open>The loop of Compact\<close>

lemma set_keep: "set (keep m y xs) \<subseteq> set xs"
  by (induction xs arbitrary: y) auto

lemma keep_cong:
  "(\<And>k. k \<in> set xs \<Longrightarrow> lookup0 m k = lookup0 m' k) \<Longrightarrow> keep m y xs = keep m' y xs"
  by (induction xs arbitrary: y) auto

lemma keep_idem: "keep m y (keep m y xs) = keep m y xs"
  by (induction xs arbitrary: y) auto

lemma sorted_wrt_keep: "sorted_wrt P xs \<Longrightarrow> sorted_wrt P (keep m y xs)"
proof (induction xs arbitrary: y)
  case Nil
  show ?case by simp
next
  case (Cons x xs)
  then show ?case using set_keep [of m "lookup0 m x" xs] by auto
qed

lemma strictly_increasing_keep:
  "strictly_increasing (x0 # xs) \<Longrightarrow> strictly_increasing (x0 # keep m y xs)"
  using set_keep [of m y xs] sorted_wrt_keep [of "\<lambda>a b. a <s b" xs m y]
  by (auto simp: strictly_increasing_def)

lemma lookup0_delete: "k \<noteq> x \<Longrightarrow> lookup0 (m(x := None)) k = lookup0 m k"
  by (simp add: lookup0_def)

lemma Compact_loop_eq:
  "distinct xs \<Longrightarrow> 0 < i \<Longrightarrow>
     Compact_loop i xs pts ns y =
       (pts |` (- (set xs - set (keep pts y xs))), ns @ keep pts y xs)"
proof (induction xs arbitrary: i pts ns y)
  case Nil
  show ?case by simp
next
  case (Cons x xs)
  from Cons.prems have dist: "distinct xs" and notin: "x \<notin> set xs" by simp_all
  show ?case
  proof (cases "lookup0 pts x = y")
    case True
    have k: "keep (pts(x := None)) y xs = keep pts y xs"
      using notin by (intro keep_cong lookup0_delete) auto
    have "x \<notin> set (keep pts y xs)" using notin set_keep [of pts y xs] by auto
    then have r: "(pts(x := None)) |` (- (set xs - set (keep pts y xs))) =
          pts |` (- (set (x # xs) - set (keep pts y (x # xs))))"
      using True by (auto simp: fun_eq_iff restrict_map_def)
    have "Compact_loop i (x # xs) pts ns y = Compact_loop (i + 1) xs (pts(x := None)) ns y"
      using True Cons.prems(2) by simp
    also have "\<dots> = ((pts(x := None)) |` (- (set xs - set (keep (pts(x := None)) y xs))),
        ns @ keep (pts(x := None)) y xs)"
      by (rule Cons.IH [OF dist]) simp
    also have "\<dots> = (pts |` (- (set (x # xs) - set (keep pts y (x # xs)))),
        ns @ keep pts y (x # xs))"
      unfolding k r using True by simp
    finally show ?thesis .
  next
    case False
    have r: "pts |` (- (set xs - set (keep pts (lookup0 pts x) xs))) =
          pts |` (- (set (x # xs) - set (keep pts y (x # xs))))"
      using notin False by (auto simp: fun_eq_iff restrict_map_def)
    have "Compact_loop i (x # xs) pts ns y =
        Compact_loop (i + 1) xs pts (ns @ [x]) (lookup0 pts x)"
      using False Cons.prems(2) by simp
    also have "\<dots> = (pts |` (- (set xs - set (keep pts (lookup0 pts x) xs))),
        (ns @ [x]) @ keep pts (lookup0 pts x) xs)"
      by (rule Cons.IH [OF dist]) simp
    also have "\<dots> = (pts |` (- (set (x # xs) - set (keep pts y (x # xs)))),
        ns @ keep pts y (x # xs))"
      unfolding r using False by simp
    finally show ?thesis .
  qed
qed

lemma Compact_loop_0:
  assumes "distinct (x0 # rest)"
  shows "Compact_loop 0 (x0 # rest) pts [x0] y =
           (pts |` (- (set rest - set (keep pts y rest))), x0 # keep pts y rest)"
proof -
  have "Compact_loop 0 (x0 # rest) pts [x0] y = Compact_loop 1 rest pts [x0] y"
    by simp
  also have "\<dots> = (pts |` (- (set rest - set (keep pts y rest))), [x0] @ keep pts y rest)"
    using assms by (intro Compact_loop_eq) simp_all
  finally show ?thesis by simp
qed

lemma keep_char:
  assumes "strictly_increasing (p # xs)" "lookup0 m p = y" "k \<in> set xs"
  shows "(k \<notin> set (keep m y xs)) =
         (\<exists>k0 \<in> insert p (set (keep m y xs)). k0 <s k \<and>
            (\<forall>z \<in> insert p (set (keep m y xs)). \<not> (k0 <s z \<and> z <s k)) \<and>
            lookup0 m k0 = lookup0 m k)"
  using assms
proof (induction xs arbitrary: p y)
  case Nil
  then show ?case by simp
next
  case (Cons a xs)
  from Cons.prems(1) have pa: "p <s a" and above: "\<forall>z \<in> set xs. a <s z"
    and inc_p: "strictly_increasing (p # xs)" and inc_a: "strictly_increasing (a # xs)"
    by (auto simp: strictly_increasing_def)
  show ?case
  proof (cases "lookup0 m a = y")
    case True
    let ?K = "keep m y xs"
    have K: "\<forall>z \<in> set ?K. a <s z" using above set_keep [of m y xs] by auto
    show ?thesis
    proof (cases "k = a")
      case ka: True
      have "a \<notin> set ?K" using K by (auto simp: sless_sint)
      moreover have "\<forall>z \<in> insert p (set ?K). \<not> (p <s z \<and> z <s a)"
        using K by (auto simp: sless_sint)
      ultimately show ?thesis using True ka pa Cons.prems(2) by auto
    next
      case False
      with Cons.prems(3) have "k \<in> set xs" by simp
      from Cons.IH [OF inc_p Cons.prems(2) this] True show ?thesis by simp
    qed
  next
    case False
    let ?K = "keep m (lookup0 m a) xs"
    have K: "\<forall>z \<in> set ?K. a <s z" using above set_keep [of m "lookup0 m a" xs] by auto
    show ?thesis
    proof (cases "k = a")
      case ka: True
      have "\<not> (\<exists>k0 \<in> insert p (insert a (set ?K)). k0 <s a \<and>
            (\<forall>z \<in> insert p (insert a (set ?K)). \<not> (k0 <s z \<and> z <s a)) \<and>
            lookup0 m k0 = lookup0 m a)"
        using K False Cons.prems(2) by (auto simp: sless_sint)
      with False ka show ?thesis by simp
    next
      case kna: False
      with Cons.prems(3) have kxs: "k \<in> set xs" by simp
      then have ak: "a <s k" using above by simp
      have "(\<exists>k0 \<in> insert a (set ?K). k0 <s k \<and>
            (\<forall>z \<in> insert a (set ?K). \<not> (k0 <s z \<and> z <s k)) \<and>
            lookup0 m k0 = lookup0 m k) =
         (\<exists>k0 \<in> insert p (insert a (set ?K)). k0 <s k \<and>
            (\<forall>z \<in> insert p (insert a (set ?K)). \<not> (k0 <s z \<and> z <s k)) \<and>
            lookup0 m k0 = lookup0 m k)"
        using K pa ak by (auto simp: sless_sint)
      with Cons.IH [OF inc_a refl kxs] False kna show ?thesis by simp
    qed
  qed
qed

lemma strictly_increasing_unique:
  assumes "strictly_increasing xs" "strictly_increasing ys" "set xs = set ys"
  shows "xs = ys"
proof -
  have "map sint xs = map sint ys"
    using assms
    by (intro sorted_distinct_set_unique)
      (simp_all add: strictly_increasing_iff distinct_map inj_on_def sint_inj)
  moreover have "inj (sint :: int64 \<Rightarrow> int)"
    by (simp add: inj_on_def sint_inj)
  ultimately show ?thesis by (simp add: inj_map_eq_map)
qed

lemma sorted_sort_S_unique:
  assumes "series_inv s" "strictly_increasing xs" "set xs = dom (points s)"
  shows "sorted_xs (sort_S s) = xs"
  using series_inv_sorted_incr [OF assms(1)] series_inv_sorted_dom [OF assms(1)] assms(2,3)
  by (intro strictly_increasing_unique) simp_all

lemma Compact_small: "Size s < 2 \<Longrightarrow> Compact s = Inr s"
  by (simp add: Compact_def)

lemma Compact_big:
  assumes "series_inv s" "\<not> Size s < 2"
  shows "\<exists>x0 rest. sorted_xs (sort_S s) = x0 # rest \<and>
           Compact s = Inr ((sort_S s)
             \<lparr>points := points s |` (- (set rest - set (keep (points s) (lookup0 (points s) x0) rest))),
              sorted_xs := x0 # keep (points s) (lookup0 (points s) x0) rest\<rparr>)"
proof -
  let ?s1 = "sort_S s"
  have "dom (points s) \<noteq> {}" using assms(2) by (auto simp: Size_def)
  then have "set (sorted_xs ?s1) \<noteq> {}"
    unfolding series_inv_sorted_dom [OF assms(1)] .
  then have "sorted_xs ?s1 \<noteq> []" by auto
  then obtain x0 rest where xs: "sorted_xs ?s1 = x0 # rest" by (cases "sorted_xs ?s1") auto
  have "distinct (x0 # rest)"
    using series_inv_sorted_incr [OF assms(1)] xs by (simp add: strictly_increasing_iff)
  from Compact_loop_0 [OF this, of "points s" "lookup0 (points s) x0"] xs assms(2)
  show ?thesis by (simp add: Compact_def Let_def points_sort_S)
qed

text \<open>What \<open>Compact\<close> returns, in the terms of the points before and after.\<close>

lemma Compact_spec:
  assumes "series_inv s"
  shows "\<exists>s'. Compact s = Inr s' \<and> series_inv s' \<and>
           dom (points s') \<subseteq> dom (points s) \<and>
           (\<forall>k \<in> dom (points s'). points s' k = points s k) \<and>
           (\<forall>k \<in> dom (points s). (k \<notin> dom (points s')) =
              (\<exists>k0 \<in> dom (points s'). k0 <s k \<and>
                 (\<forall>z \<in> dom (points s'). \<not> (k0 <s z \<and> z <s k)) \<and>
                 points s k0 = points s k)) \<and>
           (\<forall>k \<in> dom (points s). (\<forall>z \<in> dom (points s). k \<le>s z) \<longrightarrow> k \<in> dom (points s'))"
proof (cases "Size s < 2")
  case True
  have "finite (dom (points s))" by simp
  with True have "card (dom (points s)) \<le> 1" by (simp add: Size_def)
  then have one: "a = b" if "a \<in> dom (points s)" "b \<in> dom (points s)" for a b
    using that by (auto simp: card_le_Suc0_iff_eq)
  have "\<not> (\<exists>k0 \<in> dom (points s). k0 <s k \<and>
                 (\<forall>z \<in> dom (points s). \<not> (k0 <s z \<and> z <s k)) \<and>
                 points s k0 = points s k)" if "k \<in> dom (points s)" for k
    using one [OF that] by (auto simp: sless_sint)
  with Compact_small [OF True] assms show ?thesis by auto
next
  case False
  let ?m = "points s"
  from Compact_big [OF assms False] obtain x0 rest where
    xs: "sorted_xs (sort_S s) = x0 # rest" and
    c: "Compact s = Inr ((sort_S s)
             \<lparr>points := ?m |` (- (set rest - set (keep ?m (lookup0 ?m x0) rest))),
              sorted_xs := x0 # keep ?m (lookup0 ?m x0) rest\<rparr>)"
    by blast
  let ?K = "keep ?m (lookup0 ?m x0) rest"
  let ?s' = "(sort_S s)\<lparr>points := ?m |` (- (set rest - set ?K)), sorted_xs := x0 # ?K\<rparr>"
  have incr: "strictly_increasing (x0 # rest)"
    using series_inv_sorted_incr [OF assms] xs by simp
  have dom: "dom ?m = insert x0 (set rest)"
    using series_inv_sorted_dom [OF assms] xs by simp
  have x0: "x0 \<notin> set rest" using incr by (simp add: strictly_increasing_iff)
  have K: "set ?K \<subseteq> set rest" by (rule set_keep)
  have "dom (points ?s') = dom ?m \<inter> - (set rest - set ?K)"
    by simp
  also have "\<dots> = insert x0 (set ?K)"
    unfolding dom using x0 K by blast
  finally have dom': "dom (points ?s') = insert x0 (set ?K)" .
  have val: "points ?s' k = ?m k" if "k \<in> dom (points ?s')" for k
    using that by (auto simp: restrict_map_def split: if_splits)
  have lk: "lookup0 ?m a = lookup0 ?m b \<longleftrightarrow> ?m a = ?m b"
    if "a \<in> dom ?m" "b \<in> dom ?m" for a b
    using that by (auto simp: lookup0_def)
  have inv': "series_inv ?s'"
    using strictly_increasing_keep [OF incr, of ?m "lookup0 ?m x0"] dom'
    by (simp add: series_inv_def unsorted_sort_S strictly_increasing_iff)
  have char: "(k \<notin> dom (points ?s')) =
              (\<exists>k0 \<in> dom (points ?s'). k0 <s k \<and>
                 (\<forall>z \<in> dom (points ?s'). \<not> (k0 <s z \<and> z <s k)) \<and>
                 ?m k0 = ?m k)" if k: "k \<in> dom ?m" for k
  proof (cases "k = x0")
    case True
    have "\<forall>z \<in> set ?K. x0 <s z" using incr K by (auto simp: strictly_increasing_def)
    then show ?thesis unfolding dom' True by (auto simp: sless_sint)
  next
    case False
    with k dom have krest: "k \<in> set rest" by auto
    have "(\<exists>k0 \<in> insert x0 (set ?K). k0 <s k \<and>
            (\<forall>z \<in> insert x0 (set ?K). \<not> (k0 <s z \<and> z <s k)) \<and>
            lookup0 ?m k0 = lookup0 ?m k) =
          (\<exists>k0 \<in> insert x0 (set ?K). k0 <s k \<and>
            (\<forall>z \<in> insert x0 (set ?K). \<not> (k0 <s z \<and> z <s k)) \<and>
            ?m k0 = ?m k)"
      using lk [OF _ k] dom K by (intro bex_cong refl conj_cong) auto
    with keep_char [OF incr refl krest, of ?m] False show ?thesis
      unfolding dom' by simp
  qed
  have first: "k \<in> dom (points ?s')"
    if "k \<in> dom ?m" "\<forall>z \<in> dom ?m. k \<le>s z" for k
  proof -
    have "\<forall>z \<in> set rest. x0 <s z" using incr by (auto simp: strictly_increasing_def)
    moreover from that dom have "k \<le>s x0" by auto
    ultimately have "k = x0" using that(1) dom by (auto simp: sless_sint sle_sint)
    then show ?thesis using dom' by simp
  qed
  have sub: "dom (points ?s') \<subseteq> dom ?m" using dom dom' K by auto
  show ?thesis
    using c inv' sub val char first by (intro exI [of _ ?s']) blast
qed

lemma keep_pred:
  assumes "distinct (p # xs)" "lookup0 m p = y" "i < length xs"
  shows "(xs ! i \<notin> set (keep m y xs)) = (lookup0 m ((p # xs) ! i) = lookup0 m (xs ! i))"
  using assms
proof (induction xs arbitrary: p y i)
  case Nil
  then show ?case by simp
next
  case (Cons a xs)
  from Cons.prems(1) have da: "distinct (a # xs)" and axs: "a \<notin> set xs" by simp_all
  show ?case
  proof (cases i)
    case 0
    have "a \<notin> set (keep m y xs)" using axs set_keep [of m y xs] by auto
    with 0 Cons.prems(2) show ?thesis by auto
  next
    case (Suc j)
    with Cons.prems(3) have j: "j < length xs" by simp
    then have "xs ! j \<noteq> a" using axs by (metis nth_mem)
    with Cons.IH [OF da refl j] Suc show ?thesis by auto
  qed
qed

lemma strictly_increasing_nth_less_iff:
  assumes "strictly_increasing xs" "a < length xs" "b < length xs"
  shows "(xs ! a <s xs ! b) = (a < b)"
proof
  assume "a < b"
  then show "xs ! a <s xs ! b" by (rule strictly_increasing_nth [OF assms(1) _ assms(3)])
next
  assume l: "xs ! a <s xs ! b"
  show "a < b"
  proof (rule ccontr)
    assume "\<not> a < b"
    then have "b \<le> a" by simp
    from strictly_increasing_nth_le [OF assms(1) this assms(2)] l show False
      by (simp add: sle_sint sless_sint)
  qed
qed

lemma immediate_predecessor:
  assumes "strictly_increasing xs" "Suc i < length xs"
  shows "(\<exists>k0 \<in> set xs. k0 <s xs ! Suc i \<and>
            (\<forall>z \<in> set xs. \<not> (k0 <s z \<and> z <s xs ! Suc i)) \<and> P k0) = P (xs ! i)"
proof
  assume "P (xs ! i)"
  moreover have "xs ! i <s xs ! Suc i"
    using assms by (simp add: strictly_increasing_nth_less_iff)
  moreover have "\<not> (xs ! i <s z \<and> z <s xs ! Suc i)" if "z \<in> set xs" for z
  proof -
    from that obtain n where "n < length xs" "z = xs ! n" by (auto simp: in_set_conv_nth)
    then show ?thesis using assms by (auto simp: strictly_increasing_nth_less_iff)
  qed
  moreover have "xs ! i \<in> set xs" using assms(2) by simp
  ultimately show "\<exists>k0 \<in> set xs. k0 <s xs ! Suc i \<and>
            (\<forall>z \<in> set xs. \<not> (k0 <s z \<and> z <s xs ! Suc i)) \<and> P k0"
    by blast
next
  assume "\<exists>k0 \<in> set xs. k0 <s xs ! Suc i \<and>
            (\<forall>z \<in> set xs. \<not> (k0 <s z \<and> z <s xs ! Suc i)) \<and> P k0"
  then obtain j where j: "j < length xs" "xs ! j <s xs ! Suc i"
    "\<forall>z \<in> set xs. \<not> (xs ! j <s z \<and> z <s xs ! Suc i)" "P (xs ! j)"
    by (auto simp: in_set_conv_nth)
  from j(1,2) assms have "j < Suc i" by (simp add: strictly_increasing_nth_less_iff)
  moreover have "\<not> j < i"
  proof
    assume "j < i"
    then have "xs ! j <s xs ! i" "xs ! i <s xs ! Suc i"
      using assms j(1) by (simp_all add: strictly_increasing_nth_less_iff)
    moreover have "xs ! i \<in> set xs" using assms(2) by simp
    ultimately show False using j(3) by blast
  qed
  ultimately have "j = i" by simp
  with j(4) show "P (xs ! i)" by simp
qed

lemma Compact_removed_pred:
  assumes "series_inv s" "Compact s = Inr s'" "k \<in> dom (points s)"
  shows "(k \<notin> dom (points s')) =
           (\<exists>k0 \<in> dom (points s). k0 <s k \<and>
              (\<forall>z \<in> dom (points s). \<not> (k0 <s z \<and> z <s k)) \<and>
              points s k0 = points s k)"
proof (cases "Size s < 2")
  case True
  have "finite (dom (points s))" by simp
  with True have "card (dom (points s)) \<le> 1" by (simp add: Size_def)
  then have one: "a = b" if "a \<in> dom (points s)" "b \<in> dom (points s)" for a b
    using that by (auto simp: card_le_Suc0_iff_eq)
  have "\<not> (\<exists>k0 \<in> dom (points s). k0 <s k \<and>
                 (\<forall>z \<in> dom (points s). \<not> (k0 <s z \<and> z <s k)) \<and>
                 points s k0 = points s k)"
    using one [OF assms(3)] by (auto simp: sless_sint)
  with Compact_small [OF True] assms(2,3) show ?thesis by auto
next
  case False
  let ?m = "points s"
  from Compact_big [OF assms(1) False] assms(2) obtain x0 rest where
    xs: "sorted_xs (sort_S s) = x0 # rest" and
    c: "s' = (sort_S s)
             \<lparr>points := ?m |` (- (set rest - set (keep ?m (lookup0 ?m x0) rest))),
              sorted_xs := x0 # keep ?m (lookup0 ?m x0) rest\<rparr>"
    by auto
  let ?K = "keep ?m (lookup0 ?m x0) rest"
  have incr: "strictly_increasing (x0 # rest)"
    using series_inv_sorted_incr [OF assms(1)] xs by simp
  have dom: "dom ?m = set (x0 # rest)"
    using series_inv_sorted_dom [OF assms(1)] xs by simp
  have dist: "distinct (x0 # rest)" using incr by (simp add: strictly_increasing_iff)
  have K: "set ?K \<subseteq> set rest" by (rule set_keep)
  have "dom (points s') = dom ?m \<inter> - (set rest - set ?K)"
    unfolding c by simp
  also have "\<dots> = insert x0 (set ?K)"
    unfolding dom using dist K by auto
  finally have dom': "dom (points s') = insert x0 (set ?K)" .
  have lk: "(lookup0 ?m a = lookup0 ?m k) = (?m a = ?m k)" if "a \<in> dom ?m" for a
    using that assms(3) by (auto simp: lookup0_def)
  show ?thesis
  proof (cases "k = x0")
    case True
    have "\<forall>z \<in> set rest. x0 <s z" using incr by (auto simp: strictly_increasing_def)
    then have "\<not> (\<exists>k0 \<in> set (x0 # rest). k0 <s x0)" by (auto simp: sless_sint)
    then show ?thesis unfolding dom' dom True by auto
  next
    case False
    with assms(3) dom obtain i where i: "i < length rest" "k = rest ! i"
      by (auto simp: in_set_conv_nth)
    have "(k \<notin> dom (points s')) = (rest ! i \<notin> set ?K)"
      unfolding dom' using False i by simp
    also have "\<dots> = (lookup0 ?m ((x0 # rest) ! i) = lookup0 ?m (rest ! i))"
      by (rule keep_pred [OF dist refl i(1)])
    also have "\<dots> = (?m ((x0 # rest) ! i) = ?m k)"
      unfolding i(2) [symmetric] using i(1) dom by (intro lk) (simp del: set_simps)
    also have "\<dots> = (\<exists>k0 \<in> set (x0 # rest). k0 <s (x0 # rest) ! Suc i \<and>
            (\<forall>z \<in> set (x0 # rest). \<not> (k0 <s z \<and> z <s (x0 # rest) ! Suc i)) \<and> ?m k0 = ?m k)"
      using i(1) by (intro immediate_predecessor [OF incr, symmetric]) simp
    finally show ?thesis unfolding dom using i(2) by simp
  qed
qed

lemma sort_S_no_unsorted: "unsorted s = [] \<Longrightarrow> sort_S s = s"
  by (simp add: sort_S_def)

lemma Compact_idem:
  assumes "series_inv s" "Compact s = Inr s'"
  shows "Compact s' = Inr s'"
proof (cases "Size s < 2")
  case True
  with assms(2) show ?thesis by (simp add: Compact_small)
next
  case False
  let ?m = "points s"
  from Compact_big [OF assms(1) False] assms(2) obtain x0 rest where
    xs: "sorted_xs (sort_S s) = x0 # rest" and
    c: "s' = (sort_S s)
             \<lparr>points := ?m |` (- (set rest - set (keep ?m (lookup0 ?m x0) rest))),
              sorted_xs := x0 # keep ?m (lookup0 ?m x0) rest\<rparr>"
    by auto
  let ?K = "keep ?m (lookup0 ?m x0) rest"
  let ?m' = "?m |` (- (set rest - set ?K))"
  have incr: "strictly_increasing (x0 # rest)"
    using series_inv_sorted_incr [OF assms(1)] xs by simp
  have dist: "distinct (x0 # rest)" using incr by (simp add: strictly_increasing_iff)
  have K: "set ?K \<subseteq> set rest" by (rule set_keep)
  have distK: "distinct (x0 # ?K)"
    using strictly_increasing_keep [OF incr] by (simp add: strictly_increasing_iff)
  have uns: "unsorted s' = []" and srt: "sorted_xs s' = x0 # ?K" and pts: "points s' = ?m'"
    unfolding c by (simp_all add: unsorted_sort_S)
  have same: "lookup0 ?m' k = lookup0 ?m k" if "k \<in> insert x0 (set ?K)" for k
    using that dist K by (auto simp: lookup0_def restrict_map_def)
  have s0: "lookup0 ?m' x0 = lookup0 ?m x0" by (rule same) simp
  have "keep ?m' (lookup0 ?m' x0) ?K = keep ?m' (lookup0 ?m x0) ?K"
    by (simp only: s0)
  also have "\<dots> = keep ?m (lookup0 ?m x0) ?K"
    by (rule keep_cong) (rule same, simp)
  also have "\<dots> = ?K" by (rule keep_idem)
  finally have k: "keep ?m' (lookup0 ?m' x0) ?K = ?K" .
  show ?thesis
  proof (cases "Size s' < 2")
    case True
    then show ?thesis by (rule Compact_small)
  next
    case big: False
    have "Compact_loop 0 (x0 # ?K) ?m' [x0] (lookup0 ?m' x0) = (?m', x0 # ?K)"
      unfolding Compact_loop_0 [OF distK] k by simp
    then have "Compact s' = Inr (s'\<lparr>points := ?m', sorted_xs := x0 # ?K\<rparr>)"
      using big by (simp add: Compact_def Let_def sort_S_no_unsorted [OF uns] srt pts)
    also have "s'\<lparr>points := ?m', sorted_xs := x0 # ?K\<rparr> = s'"
      unfolding c by simp
    finally show ?thesis .
  qed
qed

lemma Get_Compact:
  assumes "series_inv s" "Compact s = Inr s'"
  shows "fst (Get s' x) = fst (Get s x)"
proof -
  from Compact_spec [OF assms(1)] assms(2) have
    inv': "series_inv s'" and
    sub: "dom (points s') \<subseteq> dom (points s)" and
    val: "\<And>k. k \<in> dom (points s') \<Longrightarrow> points s' k = points s k" and
    char: "\<And>k. k \<in> dom (points s) \<Longrightarrow> (k \<notin> dom (points s')) =
              (\<exists>k0 \<in> dom (points s'). k0 <s k \<and>
                 (\<forall>z \<in> dom (points s'). \<not> (k0 <s z \<and> z <s k)) \<and>
                 points s k0 = points s k)"
    by auto
  text \<open>The greatest retained key at or below \<open>x\<close> carries the value \<open>Get\<close> returned.\<close>
  have after: "points s' k' = Some (fst (Get s' x))"
    if "k' \<in> dom (points s')" "k' \<le>s x" "\<forall>z \<in> dom (points s'). z \<le>s x \<longrightarrow> z \<le>s k'" for k'
  proof -
    from Get_floor_cases [OF inv', of x] that(1,2)
    obtain x0 where x0: "x0 \<in> dom (points s')" "x0 \<le>s x"
      "\<forall>z \<in> dom (points s'). z \<le>s x \<longrightarrow> z \<le>s x0" "points s' x0 = Some (fst (Get s' x))"
      by blast
    from x0(1,2) that(3) have "x0 \<le>s k'" by blast
    moreover from that(1,2) x0(3) have "k' \<le>s x0" by blast
    ultimately have "x0 = k'" by (simp add: sle_sint flip: sint_inj)
    with x0(4) show ?thesis by simp
  qed
  from Get_floor_cases [OF assms(1), of x] show ?thesis
  proof (elim disjE exE conjE)
    assume none: "\<forall>z \<in> dom (points s). \<not> z \<le>s x" and g: "fst (Get s x) = 0"
    with sub have "\<forall>z \<in> dom (points s'). \<not> z \<le>s x" by blast
    with Get_floor_cases [OF inv', of x] have "fst (Get s' x) = 0" by blast
    with g show ?thesis by simp
  next
    fix k
    assume k: "k \<in> dom (points s)" "k \<le>s x"
      "\<forall>z \<in> dom (points s). z \<le>s x \<longrightarrow> z \<le>s k" "points s k = Some (fst (Get s x))"
    show ?thesis
    proof (cases "k \<in> dom (points s')")
      case True
      have "\<forall>z \<in> dom (points s'). z \<le>s x \<longrightarrow> z \<le>s k" using k(3) sub by blast
      from after [OF True k(2) this] val [OF True] k(4) show ?thesis by simp
    next
      case False
      with char [OF k(1)] obtain k0 where k0: "k0 \<in> dom (points s')" "k0 <s k"
        "\<forall>z \<in> dom (points s'). \<not> (k0 <s z \<and> z <s k)" "points s k0 = points s k"
        by blast
      have le: "k0 \<le>s x" using k0(2) k(2) by (simp add: sle_sint sless_sint)
      have "z \<le>s k0" if z: "z \<in> dom (points s')" "z \<le>s x" for z
      proof -
        from z sub k(3) have "z \<le>s k" by blast
        moreover from z(1) False have "z \<noteq> k" by blast
        ultimately have "z <s k" by (simp add: sle_sint sless_sint flip: sint_inj)
        with k0(3) z(1) have "\<not> k0 <s z" by blast
        then show ?thesis by (simp add: sle_sint sless_sint)
      qed
      then have "\<forall>z \<in> dom (points s'). z \<le>s x \<longrightarrow> z \<le>s k0" by blast
      from after [OF k0(1) le this] val [OF k0(1)] k0(4) k(4) show ?thesis by simp
    qed
  qed
qed

section \<open>The claims about Compact\<close>

lemma Compact_points_of_sorted:
  assumes "series_inv s" "\<not> Size s < 2" "strictly_increasing (x0 # rest)"
    "set (x0 # rest) = dom (points s)"
  shows "\<exists>s'. Compact s = Inr s' \<and>
           points s' =
             points s |` (- (set rest - set (keep (points s) (lookup0 (points s) x0) rest)))"
proof -
  have "sorted_xs (sort_S s) = x0 # rest"
    by (rule sorted_sort_S_unique [OF assms(1,3,4)])
  with Compact_big [OF assms(1,2)] show ?thesis by auto
qed

lemma series_inv_range:
  "is_range_of kvs data \<Longrightarrow> series_inv (NewSeriesData kvs)"
  by (simp add: is_range_of_def series_inv_NewSeriesData)

text \<open>
  C4. For a series that satisfies the invariant, \<open>Compact\<close> returns, and \<open>Get x\<close> on the
  series it returns gives, for every \<open>x\<close>, the value \<open>Get x\<close> gives before the call.
\<close>

theorem Compact_preserves_Get:
  assumes "series_inv s"
  shows "\<exists>s'. Compact s = Inr s' \<and> (\<forall>x. fst (Get s' x) = fst (Get s x))"
proof -
  from Compact_spec [OF assms] obtain s' where "Compact s = Inr s'" by blast
  with Get_Compact [OF assms this] show ?thesis by blast
qed

theorem Compact_preserves_Get_witness:
  "series_inv (NewSeriesData [(4, 10), (0, 0), (2, 10)]) \<and>
   fst (Get (NewSeriesData [(4, 10), (0, 0), (2, 10)]) 7) = 10 \<and>
   (\<exists>s'. Compact (NewSeriesData [(4, 10), (0, 0), (2, 10)]) = Inr s' \<and>
      points s' 4 = None \<and> fst (Get s' 7) = 10)"
proof -
  let ?s = "NewSeriesData [(4, 10), (0, 0), (2, 10)]"
  have inv: "series_inv ?s" by (simp add: series_inv_NewSeriesData)
  have g: "fst (Get ?s 7) = 10"
    by (simp add: Get_def NewSeriesData_def sort_S_def find_S_def lookup0_def sless_sint Let_def)
  have c: "\<exists>s'. Compact ?s = Inr s' \<and> points s' 4 = None"
    by (simp add: Compact_def Size_def NewSeriesData_def sort_S_def lookup0_def Let_def)
  from Compact_preserves_Get [OF inv] c g inv show ?thesis by auto
qed

text \<open>
  C6. For a series that satisfies the invariant, \<open>Compact\<close> returns, \<open>Compact\<close> on the
  series it returns returns as well, and the second call leaves the stored points (keys
  and values) as the first call left them.
\<close>

theorem Compact_idempotent:
  assumes "series_inv s"
  shows "\<exists>s1 s2. Compact s = Inr s1 \<and> Compact s1 = Inr s2 \<and> points s2 = points s1"
proof -
  from Compact_spec [OF assms] obtain s1 where "Compact s = Inr s1" by blast
  with Compact_idem [OF assms this] show ?thesis by blast
qed

theorem Compact_idempotent_witness:
  "series_inv (NewSeriesData [(4, 10), (0, 0), (2, 10)]) \<and>
   (\<exists>s1 s2. Compact (NewSeriesData [(4, 10), (0, 0), (2, 10)]) = Inr s1 \<and>
      Compact s1 = Inr s2 \<and> points s2 = points s1 \<and> points s1 4 = None \<and>
      points s1 2 = Some 10)"
proof -
  let ?s = "NewSeriesData [(4, 10), (0, 0), (2, 10)]"
  have inv: "series_inv ?s" by (simp add: series_inv_NewSeriesData)
  have c: "\<exists>s'. Compact ?s = Inr s' \<and> points s' 4 = None \<and> points s' 2 = Some 10"
    by (simp add: Compact_def Size_def NewSeriesData_def sort_S_def lookup0_def Let_def)
  from Compact_idempotent [OF inv] c inv show ?thesis by auto
qed

text \<open>
  C5. For a series that satisfies the invariant, \<open>Compact\<close> returns a series whose points
  are points of the series before, with their values. A stored key \<open>k\<close> is removed
  exactly when the retained key next below \<open>k\<close> has the same y as \<open>k\<close>; this is the
  case exactly when the stored key next below \<open>k\<close> before the call has the same y as
  \<open>k\<close>. The smallest stored key is retained, whatever its y. A series built from
  \<open>{0:0, 2:10, 4:10, 5:9, 10:8, 20:8, 22:8, 30:0}\<close>, in whatever order the map is
  ranged over, has after \<open>Compact\<close> exactly the points \<open>{0:0, 2:10, 5:9, 10:8, 30:0}\<close>.
\<close>

theorem Compact_postcondition:
  "(series_inv s \<longrightarrow>
      (\<exists>s'. Compact s = Inr s' \<and>
         dom (points s') \<subseteq> dom (points s) \<and>
         (\<forall>k \<in> dom (points s'). points s' k = points s k) \<and>
         (\<forall>k \<in> dom (points s).
            (k \<notin> dom (points s')) =
              (\<exists>k0 \<in> dom (points s'). k0 <s k \<and>
                 (\<forall>z \<in> dom (points s'). \<not> (k0 <s z \<and> z <s k)) \<and>
                 points s k0 = points s k)) \<and>
         (\<forall>k \<in> dom (points s).
            (k \<notin> dom (points s')) =
              (\<exists>k0 \<in> dom (points s). k0 <s k \<and>
                 (\<forall>z \<in> dom (points s). \<not> (k0 <s z \<and> z <s k)) \<and>
                 points s k0 = points s k)) \<and>
         (\<forall>k \<in> dom (points s). (\<forall>z \<in> dom (points s). k \<le>s z) \<longrightarrow> k \<in> dom (points s')))) \<and>
   (\<forall>kvs. is_range_of kvs [0 \<mapsto> 0, 2 \<mapsto> 10, 4 \<mapsto> 10, 5 \<mapsto> 9, 10 \<mapsto> 8, 20 \<mapsto> 8, 22 \<mapsto> 8, 30 \<mapsto> 0] \<longrightarrow>
      (\<exists>s'. Compact (NewSeriesData kvs) = Inr s' \<and>
         points s' = [0 \<mapsto> 0, 2 \<mapsto> 10, 5 \<mapsto> 9, 10 \<mapsto> 8, 30 \<mapsto> 0]))"
proof (intro conjI impI allI)
  assume inv: "series_inv s"
  from Compact_spec [OF inv] obtain s' where s': "Compact s = Inr s'"
    "dom (points s') \<subseteq> dom (points s)"
    "\<forall>k \<in> dom (points s'). points s' k = points s k"
    "\<forall>k \<in> dom (points s). (k \<notin> dom (points s')) =
              (\<exists>k0 \<in> dom (points s'). k0 <s k \<and>
                 (\<forall>z \<in> dom (points s'). \<not> (k0 <s z \<and> z <s k)) \<and>
                 points s k0 = points s k)"
    "\<forall>k \<in> dom (points s). (\<forall>z \<in> dom (points s). k \<le>s z) \<longrightarrow> k \<in> dom (points s')"
    by blast
  have "\<forall>k \<in> dom (points s). (k \<notin> dom (points s')) =
              (\<exists>k0 \<in> dom (points s). k0 <s k \<and>
                 (\<forall>z \<in> dom (points s). \<not> (k0 <s z \<and> z <s k)) \<and>
                 points s k0 = points s k)"
    using Compact_removed_pred [OF inv s'(1)] by blast
  with s' show "\<exists>s'. Compact s = Inr s' \<and>
         dom (points s') \<subseteq> dom (points s) \<and>
         (\<forall>k \<in> dom (points s'). points s' k = points s k) \<and>
         (\<forall>k \<in> dom (points s).
            (k \<notin> dom (points s')) =
              (\<exists>k0 \<in> dom (points s'). k0 <s k \<and>
                 (\<forall>z \<in> dom (points s'). \<not> (k0 <s z \<and> z <s k)) \<and>
                 points s k0 = points s k)) \<and>
         (\<forall>k \<in> dom (points s).
            (k \<notin> dom (points s')) =
              (\<exists>k0 \<in> dom (points s). k0 <s k \<and>
                 (\<forall>z \<in> dom (points s). \<not> (k0 <s z \<and> z <s k)) \<and>
                 points s k0 = points s k)) \<and>
         (\<forall>k \<in> dom (points s). (\<forall>z \<in> dom (points s). k \<le>s z) \<longrightarrow> k \<in> dom (points s'))"
    by (intro exI [of _ s']) blast
next
  fix kvs
  let ?M = "[0 \<mapsto> 0, 2 \<mapsto> 10, 4 \<mapsto> 10, 5 \<mapsto> 9, 10 \<mapsto> 8, 20 \<mapsto> 8, 22 \<mapsto> 8, 30 \<mapsto> 0] :: int64 \<rightharpoonup> int64"
  let ?s = "NewSeriesData kvs"
  assume r: "is_range_of kvs ?M"
  have inv: "series_inv ?s" by (rule series_inv_range [OF r])
  have pts: "points ?s = ?M" by (rule points_NewSeriesData_range [OF r])
  have incr: "strictly_increasing (0 # [2, 4, 5, 10, 20, 22, 30])"
    by (simp add: strictly_increasing_def sless_sint)
  have dom: "set (0 # [2, 4, 5, 10, 20, 22, 30]) = dom (points ?s)"
    unfolding pts by auto
  have "card (dom (points ?s)) = length (0 # [2, 4, 5, 10, 20, 22, 30 :: int64])"
    unfolding dom [symmetric] using incr
    by (intro distinct_card) (simp only: strictly_increasing_iff)
  then have size: "\<not> Size ?s < 2" by (simp add: Size_def)
  have k: "keep ?M (lookup0 ?M 0) [2, 4, 5, 10, 20, 22, 30] = [2, 5, 10, 30]"
    by (simp add: lookup0_def)
  have m: "?M |` (- (set [2, 4, 5, 10, 20, 22, 30] - set [2, 5, 10, 30])) =
      [0 \<mapsto> 0, 2 \<mapsto> 10, 5 \<mapsto> 9, 10 \<mapsto> 8, 30 \<mapsto> 0]"
    by (auto simp: fun_eq_iff restrict_map_def)
  from Compact_points_of_sorted [OF inv size incr dom]
  show "\<exists>s'. Compact ?s = Inr s' \<and> points s' = [0 \<mapsto> 0, 2 \<mapsto> 10, 5 \<mapsto> 9, 10 \<mapsto> 8, 30 \<mapsto> 0]"
    unfolding pts k m .
qed

theorem Compact_postcondition_witness:
  "is_range_of [(22, 8), (0, 0), (30, 0), (4, 10), (5, 9), (2, 10), (20, 8), (10, 8)]
     [0 \<mapsto> 0, 2 \<mapsto> 10, 4 \<mapsto> 10, 5 \<mapsto> 9, 10 \<mapsto> 8, 20 \<mapsto> 8, 22 \<mapsto> 8, 30 \<mapsto> 0] \<and>
   series_inv (NewSeriesData
     [(22, 8), (0, 0), (30, 0), (4, 10), (5, 9), (2, 10), (20, 8), (10, 8)]) \<and>
   (\<exists>s'. Compact (NewSeriesData
        [(22, 8), (0, 0), (30, 0), (4, 10), (5, 9), (2, 10), (20, 8), (10, 8)]) = Inr s' \<and>
      points s' = [0 \<mapsto> 0, 2 \<mapsto> 10, 5 \<mapsto> 9, 10 \<mapsto> 8, 30 \<mapsto> 0] \<and>
      dom (points s') \<subseteq> dom (points (NewSeriesData
        [(22, 8), (0, 0), (30, 0), (4, 10), (5, 9), (2, 10), (20, 8), (10, 8)])))"
proof -
  let ?kvs = "[(22, 8), (0, 0), (30, 0), (4, 10), (5, 9), (2, 10), (20, 8), (10, 8)]
    :: (int64 \<times> int64) list"
  have r: "is_range_of ?kvs
     [0 \<mapsto> 0, 2 \<mapsto> 10, 4 \<mapsto> 10, 5 \<mapsto> 9, 10 \<mapsto> 8, 20 \<mapsto> 8, 22 \<mapsto> 8, 30 \<mapsto> 0]"
    by (auto simp: is_range_of_def fun_eq_iff)
  have inv: "series_inv (NewSeriesData ?kvs)" by (rule series_inv_range [OF r])
  from Compact_postcondition [of "NewSeriesData ?kvs"] inv r show ?thesis
    by (metis sum.inject(2))
qed

section \<open>The invariant holds in every reachable state\<close>

lemma series_inv_Remove:
  assumes "series_inv s" "Remove s x = Inr s'"
  shows "series_inv s'"
proof (cases "points s x")
  case None
  with assms show ?thesis by (simp add: Remove_absent)
next
  case (Some y)
  from Remove_stored [OF assms(1) Some] assms(2) show ?thesis by auto
qed

lemma series_inv_Compact:
  assumes "series_inv s" "Compact s = Inr s'"
  shows "series_inv s'"
  using Compact_spec [OF assms(1)] assms(2) by auto

lemma reachable_series_inv: "reachable s \<Longrightarrow> series_inv s"
proof (induction rule: reachable.induct)
  case reach_NewSeries
  show ?case by (rule series_inv_NewSeries)
next
  case (reach_NewSeriesData kvs)
  then show ?case by (rule series_inv_NewSeriesData)
next
  case (reach_Set s x y)
  then show ?case by (simp add: series_inv_Set)
next
  case (reach_Remove s x s')
  then show ?case by (auto intro: series_inv_Remove)
next
  case (reach_Compact s s')
  then show ?case by (auto intro: series_inv_Compact)
next
  case (reach_Get s x)
  then show ?case by (simp add: series_inv_Get)
next
  case (reach_Xs s)
  then show ?case by (simp add: series_inv_Xs)
next
  case (reach_X0 s)
  then show ?case by (simp add: series_inv_X0)
next
  case (reach_Floor s x)
  then show ?case by (simp add: series_inv_Floor)
next
  case (reach_Ceiling s x)
  then show ?case by (simp add: series_inv_Ceiling)
next
  case (reach_Copy_new s)
  then show ?case by (simp add: series_inv_Copy)
next
  case (reach_Copy_receiver s)
  then show ?case by (simp add: series_inv_Copy)
next
  case (reach_Has s x b)
  then show ?case by simp
next
  case (reach_Size s n)
  then show ?case by simp
next
  case (reach_Equals s s0 b)
  then show ?case by simp
qed

text \<open>
  C3. Every series reachable from \<open>NewSeries\<close> or \<open>NewSeriesData\<close> by the public
  operations has, after each operation has returned, the key set of \<open>points\<close> equal to
  the disjoint union of the elements of \<open>sorted\<close> and \<open>unsorted\<close>, each key once, and
  \<open>sorted\<close> strictly increasing.
\<close>

theorem reachable_invariant:
  assumes "reachable s"
  shows "dom (points s) = set (sorted_xs s) \<union> set (unsorted s) \<and>
         set (sorted_xs s) \<inter> set (unsorted s) = {} \<and>
         distinct (sorted_xs s) \<and> distinct (unsorted s) \<and>
         sorted_wrt (\<lambda>a b. a <s b) (sorted_xs s)"
  using reachable_series_inv [OF assms]
  by (simp add: series_inv_def strictly_increasing_def)

theorem reachable_invariant_witness:
  "reachable (snd (Get (Set (Set NewSeries 7 1) 3 2) 5)) \<and>
   sorted_xs (snd (Get (Set (Set NewSeries 7 1) 3 2) 5)) = [3, 7] \<and>
   dom (points (snd (Get (Set (Set NewSeries 7 1) 3 2) 5))) =
     set (sorted_xs (snd (Get (Set (Set NewSeries 7 1) 3 2) 5))) \<union>
     set (unsorted (snd (Get (Set (Set NewSeries 7 1) 3 2) 5))) \<and>
   sorted_wrt (\<lambda>a b. a <s b) (sorted_xs (snd (Get (Set (Set NewSeries 7 1) 3 2) 5)))"
proof -
  let ?s = "snd (Get (Set (Set NewSeries 7 1) 3 2) 5)"
  have r: "reachable ?s"
    by (intro reach_Get reach_Set reach_NewSeries)
  have "sorted_xs ?s = [3, 7]"
    by (simp add: Get_def Set_def NewSeries_def sort_S_def Let_def)
  with reachable_invariant [OF r] r show ?thesis by blast
qed

section \<open>The loops of Combine\<close>

lemma fst_Get_sort_S: "fst (Get (sort_S s) x) = fst (Get s x)"
  by (simp add: Get_def points_sort_S sort_S_idem Let_def split: option.splits)

lemma sorted_from_refl: "sorted_from st st"
  by (simp add: sorted_from_def)

lemma sorted_from_Get: "sorted_from st0 st \<Longrightarrow> fst (Get (st r) x) = fst (Get (st0 r) x)"
  unfolding sorted_from_def by (metis fst_Get_sort_S)

lemma sorted_from_points: "sorted_from st0 st \<Longrightarrow> points (st r) = points (st0 r)"
  unfolding sorted_from_def by (metis points_sort_S)

lemma sorted_from_sort_S: "sorted_from st0 st \<Longrightarrow> sort_S (st r) = sort_S (st0 r)"
  unfolding sorted_from_def by (metis sort_S_idem)

lemma sorted_from_update:
  assumes "sorted_from st0 st"
  shows "sorted_from st0 (st(r := snd (Get (st r) x)))"
proof -
  have "snd (Get (st r) x) = st0 r \<or> snd (Get (st r) x) = sort_S (st0 r)"
    using snd_Get [of "st r" x] assms sort_S_idem [of "st0 r"]
    unfolding sorted_from_def by metis
  with assms show ?thesis by (simp add: sorted_from_def)
qed

lemma Combine_values_spec:
  assumes "sorted_from st0 st" "length vs = i + length ts"
  shows "fst (Combine_values i ts key vs st) =
           take i vs @ map (\<lambda>r. fst (Get (st0 r) key)) ts \<and>
         sorted_from st0 (snd (Combine_values i ts key vs st))"
  using assms
proof (induction ts arbitrary: i vs st)
  case Nil
  then show ?case by simp
next
  case (Cons t0 ts)
  let ?y = "fst (Get (st t0) key)"
  let ?st1 = "st(t0 := snd (Get (st t0) key))"
  have step: "Combine_values i (t0 # ts) key vs st =
      Combine_values (i + 1) ts key (vs[i := ?y]) ?st1"
    by (simp add: case_prod_beta)
  have sf: "sorted_from st0 ?st1" by (rule sorted_from_update [OF Cons.prems(1)])
  have len: "length (vs[i := ?y]) = (i + 1) + length ts" using Cons.prems(2) by simp
  have i: "i < length vs" using Cons.prems(2) by simp
  have tk: "take (i + 1) (vs[i := ?y]) = take i vs @ [fst (Get (st0 t0) key)]"
    using i by (simp add: take_Suc_conv_app_nth sorted_from_Get [OF Cons.prems(1)])
  have "fst (Combine_values (i + 1) ts key (vs[i := ?y]) ?st1) =
      take (i + 1) (vs[i := ?y]) @ map (\<lambda>r. fst (Get (st0 r) key)) ts"
    using Cons.IH [OF sf len] by (rule conjunct1)
  also have "\<dots> = take i vs @ map (\<lambda>r. fst (Get (st0 r) key)) (t0 # ts)"
    unfolding tk by simp
  finally have "fst (Combine_values i (t0 # ts) key vs st) =
      take i vs @ map (\<lambda>r. fst (Get (st0 r) key)) (t0 # ts)"
    unfolding step .
  moreover have "sorted_from st0 (snd (Combine_values i (t0 # ts) key vs st))"
    unfolding step using Cons.IH [OF sf len] by (rule conjunct2)
  ultimately show ?case by (rule conjI)
qed

lemma Combine_keys_spec:
  assumes "combine_acc f list st0 acc"
  shows "combine_acc f list st0 (Combine_keys f list keys acc) \<and>
         dom (fst (Combine_keys f list keys acc)) = dom (fst acc) \<union> set keys"
  using assms
proof (induction keys arbitrary: acc)
  case Nil
  then show ?case by simp
next
  case (Cons key keys)
  obtain pts uns vs st where acc: "acc = (pts, uns, vs, st)" by (cases acc)
  from Cons.prems acc have a: "sorted_from st0 st" "length vs = length list"
    "distinct uns" "set uns = dom pts"
    "\<forall>k \<in> dom pts. pts k = Some (f (map (\<lambda>r. fst (Get (st0 r) k)) list))"
    by (simp_all add: combine_acc_def)
  show ?case
  proof (cases "pts key")
    case (Some y)
    then have "Combine_keys f list (key # keys) acc = Combine_keys f list keys acc"
      by (simp add: acc)
    moreover from Some have "dom (fst acc) \<union> set (key # keys) = dom (fst acc) \<union> set keys"
      by (auto simp: acc)
    ultimately show ?thesis using Cons.IH [OF Cons.prems] by simp
  next
    case None
    let ?r = "Combine_values 0 list key vs st"
    let ?acc' = "(pts(key \<mapsto> f (fst ?r)), uns @ [key], fst ?r, snd ?r)"
    from Combine_values_spec [OF a(1), of vs 0 list key] a(2)
    have v: "fst ?r = map (\<lambda>r. fst (Get (st0 r) key)) list" "sorted_from st0 (snd ?r)"
      by simp_all
    have step: "Combine_keys f list (key # keys) acc = Combine_keys f list keys ?acc'"
      using None by (simp add: acc case_prod_beta)
    have "key \<notin> set uns" using None a(4) by auto
    then have "combine_acc f list st0 ?acc'"
      using a v by (auto simp: combine_acc_def)
    from Cons.IH [OF this] show ?thesis unfolding step by (auto simp: acc)
  qed
qed

lemma Combine_series_spec:
  assumes "combine_acc f list st0 acc"
  shows "combine_acc f list st0 (Combine_series f list ros acc) \<and>
         dom (fst (Combine_series f list ros acc)) = dom (fst acc) \<union> \<Union> (set ` snd ` set ros)"
  using assms
proof (induction ros arbitrary: acc)
  case Nil
  then show ?case by simp
next
  case (Cons ro ros)
  obtain s keys where ro: "ro = (s, keys)" by (cases ro)
  from Combine_keys_spec [OF Cons.prems, of keys]
  have k: "combine_acc f list st0 (Combine_keys f list keys acc)"
    "dom (fst (Combine_keys f list keys acc)) = dom (fst acc) \<union> set keys"
    by simp_all
  from Cons.IH [OF k(1)] k(2) show ?case by (auto simp: ro)
qed

lemma range_orders_dom:
  "range_orders st list orders \<Longrightarrow>
     \<Union> (set ` snd ` set (zip list orders)) = (\<Union>r \<in> set list. dom (points (st r)))"
  unfolding range_orders_def
  by (induction list orders rule: list_all2_induct) auto

lemma Combine_spec:
  "sorted_from st (snd (Combine f list orders st))"
  "series_inv (fst (Combine f list orders st))"
  "dom (points (fst (Combine f list orders st))) = \<Union> (set ` snd ` set (zip list orders))"
  "\<And>k. k \<in> dom (points (fst (Combine f list orders st))) \<Longrightarrow>
     points (fst (Combine f list orders st)) k = Some (f (map (\<lambda>r. fst (Get (st r) k)) list))"
proof -
  let ?init = "(Map.empty, [], replicate (length list) 0, st)
    :: (int64 \<rightharpoonup> int64) \<times> int64 list \<times> int64 list \<times> store"
  let ?acc = "Combine_series f list (zip list orders) ?init"
  obtain pts uns vs st' where acc: "?acc = (pts, uns, vs, st')" by (cases ?acc)
  have "combine_acc f list st ?init"
    by (simp add: combine_acc_def sorted_from_refl)
  from Combine_series_spec [OF this, of "zip list orders"] acc
  have a: "combine_acc f list st (pts, uns, vs, st')"
    and d: "dom pts = \<Union> (set ` snd ` set (zip list orders))"
    by simp_all
  have c: "Combine f list orders st = (\<lparr>points = pts, sorted_xs = [], unsorted = uns\<rparr>, st')"
    by (simp add: Combine_def acc)
  show "sorted_from st (snd (Combine f list orders st))"
    using a by (simp add: c combine_acc_def)
  show "series_inv (fst (Combine f list orders st))"
    using a by (simp add: c combine_acc_def series_inv_def strictly_increasing_def)
  show "dom (points (fst (Combine f list orders st))) = \<Union> (set ` snd ` set (zip list orders))"
    using d by (simp add: c)
  show "\<And>k. k \<in> dom (points (fst (Combine f list orders st))) \<Longrightarrow>
     points (fst (Combine f list orders st)) k = Some (f (map (\<lambda>r. fst (Get (st r) k)) list))"
    using a by (simp add: c combine_acc_def)
qed

section \<open>The claims about Combine\<close>

lemma fst_Get_eq:
  "fst (Get s x) =
     (case points s x of
        Some y \<Rightarrow> y
      | None \<Rightarrow>
          if find_S (sort_S s) x < 0 then 0
          else lookup0 (points s) (sorted_xs (sort_S s) ! nat (find_S (sort_S s) x)))"
  by (simp add: Get_def Let_def points_sort_S split: option.splits)

lemma find_S_cong: "sorted_xs s = sorted_xs s' \<Longrightarrow> find_S s x = find_S s' x"
  by (simp add: find_S_def)

lemma Get_same_points:
  assumes "series_inv s" "series_inv s'" "points s = points s'"
  shows "fst (Get s x) = fst (Get s' x)"
proof -
  have e: "sorted_xs (sort_S s) = sorted_xs (sort_S s')"
    using series_inv_sorted_incr [OF assms(2)] series_inv_sorted_dom [OF assms(2)] assms(3)
    by (intro sorted_sort_S_unique [OF assms(1)]) simp_all
  have f: "find_S (sort_S s) x = find_S (sort_S s') x"
    by (rule find_S_cong [OF e])
  show ?thesis
    by (simp add: fst_Get_eq e f assms(3) split: option.splits)
qed

text \<open>
  C2. When the orders are orders in which the points of the input series can be ranged
  over, the series that \<open>Combine f\<close> returns has as its stored keys exactly the union
  of the stored keys of the input series, and at each such key \<open>x\<close> the value
  \<open>f [g1 x, ..., gn x]\<close>, where \<open>gi x\<close> is what \<open>Get x\<close> returns on the i-th series of
  the list before the call, in the order of the list. With no input series the result
  is the empty series.
\<close>

theorem Combine_contract:
  assumes "range_orders st list orders"
  shows "dom (points (fst (Combine f list orders st))) = (\<Union>r \<in> set list. dom (points (st r))) \<and>
         (\<forall>x \<in> dom (points (fst (Combine f list orders st))).
            points (fst (Combine f list orders st)) x =
              Some (f (map (\<lambda>r. fst (Get (st r) x)) list))) \<and>
         (list = [] \<longrightarrow> fst (Combine f list orders st) = NewSeries)"
proof (intro conjI ballI impI)
  show "dom (points (fst (Combine f list orders st))) = (\<Union>r \<in> set list. dom (points (st r)))"
    unfolding Combine_spec(3) by (rule range_orders_dom [OF assms])
  show "points (fst (Combine f list orders st)) x =
      Some (f (map (\<lambda>r. fst (Get (st r) x)) list))"
    if "x \<in> dom (points (fst (Combine f list orders st)))" for x
    using that by (rule Combine_spec(4))
  show "fst (Combine f list orders st) = NewSeries" if "list = []"
    using that by (simp add: Combine_def NewSeries_def)
qed

theorem Combine_contract_witness:
  "range_orders
     ((\<lambda>_. NewSeries)(0 := NewSeriesData [(- 5, 3), (0, 0), (123, 1)],
                       1 := NewSeriesData [(- 10, 1), (0, 2), (50, 0)]))
     [0, 1] [[123, - 5, 0], [0, 50, - 10]] \<and>
   dom (points (fst (Combine Diff [0, 1] [[123, - 5, 0], [0, 50, - 10]]
     ((\<lambda>_. NewSeries)(0 := NewSeriesData [(- 5, 3), (0, 0), (123, 1)],
                       1 := NewSeriesData [(- 10, 1), (0, 2), (50, 0)]))))) =
     {- 10, - 5, 0, 50, 123} \<and>
   points (fst (Combine Diff [0, 1] [[123, - 5, 0], [0, 50, - 10]]
     ((\<lambda>_. NewSeries)(0 := NewSeriesData [(- 5, 3), (0, 0), (123, 1)],
                       1 := NewSeriesData [(- 10, 1), (0, 2), (50, 0)])))) (- 5) = Some 2"
proof -
  let ?S1 = "NewSeriesData [(- 5, 3), (0, 0), (123, 1)]"
  let ?S2 = "NewSeriesData [(- 10, 1), (0, 2), (50, 0)]"
  let ?st = "(\<lambda>_. NewSeries)(0 := ?S1, 1 := ?S2) :: store"
  let ?ord = "[[123, - 5, 0], [0, 50, - 10]] :: int64 list list"
  let ?c = "fst (Combine Diff [0, 1] ?ord ?st)"
  have r: "range_orders ?st [0, 1] ?ord"
    by (auto simp: range_orders_def points_NewSeriesData)
  have g: "fst (Get ?S1 (- 5)) = 3" "fst (Get ?S2 (- 5)) = 1"
    by (simp_all add: Get_def NewSeriesData_def sort_S_def find_S_def lookup0_def sless_sint
        Let_def)
  from Combine_contract [OF r, of Diff]
  have d: "dom (points ?c) = (\<Union>r \<in> set [0, 1]. dom (points (?st r)))"
    and v: "\<forall>x \<in> dom (points ?c). points ?c x = Some (Diff (map (\<lambda>r. fst (Get (?st r) x)) [0, 1]))"
    by blast+
  have d': "dom (points ?c) = {- 10, - 5, 0, 50, 123}"
    unfolding d by (auto simp: points_NewSeriesData)
  then have "- 5 \<in> dom (points ?c)" by blast
  with v have "points ?c (- 5) = Some (Diff (map (\<lambda>r. fst (Get (?st r) (- 5))) [0, 1]))"
    by blast
  then have "points ?c (- 5) = Some 2"
    by (simp add: g Diff_def)
  with r d' show ?thesis by blast
qed

text \<open>
  C10. \<open>Combine\<close> leaves the points of every series of the store as they were, and so
  what \<open>Get\<close>, \<open>Size\<close>, \<open>Has\<close> and \<open>Xs\<close> return on it; a series is after the call
  what it was before, or that with its pending keys merged into the sorted ones.
\<close>

theorem Combine_frame:
  "points (snd (Combine f list orders st) r) = points (st r) \<and>
   fst (Get (snd (Combine f list orders st) r) x) = fst (Get (st r) x) \<and>
   Size (snd (Combine f list orders st) r) = Size (st r) \<and>
   Has (snd (Combine f list orders st) r) x = Has (st r) x \<and>
   fst (Xs (snd (Combine f list orders st) r)) = fst (Xs (st r)) \<and>
   (snd (Combine f list orders st) r = st r \<or>
    snd (Combine f list orders st) r = sort_S (st r))"
proof -
  let ?st' = "snd (Combine f list orders st)"
  have sf: "sorted_from st ?st'" by (rule Combine_spec(1))
  have p: "points (?st' r) = points (st r)" by (rule sorted_from_points [OF sf])
  have "fst (Get (?st' r) x) = fst (Get (st r) x)" by (rule sorted_from_Get [OF sf])
  moreover have "Size (?st' r) = Size (st r)" by (simp add: Size_def p)
  moreover have "Has (?st' r) x = Has (st r) x" by (simp add: Has_def p)
  moreover have "fst (Xs (?st' r)) = fst (Xs (st r))"
    by (simp add: Xs_def Let_def sorted_from_sort_S [OF sf])
  moreover have "?st' r = st r \<or> ?st' r = sort_S (st r)"
    using sf by (simp add: sorted_from_def)
  ultimately show ?thesis using p by blast
qed

text \<open>
  C8, as stated: \<open>Combine Any\<close> on the two series yields a series whose stored points
  are exactly \<open>{-10:1, 50:0, 123:1}\<close>. It yields five points, one at each key of the
  inputs.
\<close>

theorem Combine_Any_scenario_counterexample:
  "points (fst (Combine Any [0, 1] [[- 5, 0, 123], [- 10, 0, 50]]
     ((\<lambda>_. NewSeries)(0 := NewSeriesData [(- 5, 3), (0, 0), (123, 1)],
                       1 := NewSeriesData [(- 10, 1), (0, 2), (50, 0)])))) (- 5) = Some 1 \<and>
   points (fst (Combine Any [0, 1] [[- 5, 0, 123], [- 10, 0, 50]]
     ((\<lambda>_. NewSeries)(0 := NewSeriesData [(- 5, 3), (0, 0), (123, 1)],
                       1 := NewSeriesData [(- 10, 1), (0, 2), (50, 0)])))) \<noteq>
     [- 10 \<mapsto> 1, 50 \<mapsto> 0, 123 \<mapsto> 1]"
proof -
  let ?S1 = "NewSeriesData [(- 5, 3), (0, 0), (123, 1)]"
  let ?S2 = "NewSeriesData [(- 10, 1), (0, 2), (50, 0)]"
  let ?st = "(\<lambda>_. NewSeries)(0 := ?S1, 1 := ?S2) :: store"
  let ?ord = "[[- 5, 0, 123], [- 10, 0, 50]] :: int64 list list"
  let ?c = "fst (Combine Any [0, 1] ?ord ?st)"
  have g: "fst (Get ?S1 (- 5)) = 3" "fst (Get ?S2 (- 5)) = 1"
    by (simp_all add: Get_def NewSeriesData_def sort_S_def find_S_def lookup0_def sless_sint
        Let_def)
  have "- 5 \<in> dom (points ?c)"
    unfolding Combine_spec(3) by simp
  then have "points ?c (- 5) = Some (Any (map (\<lambda>r. fst (Get (?st r) (- 5))) [0, 1]))"
    by (rule Combine_spec(4))
  then have v: "points ?c (- 5) = Some 1"
    by (simp add: g Any_def)
  have "([- 10 \<mapsto> 1, 50 \<mapsto> 0, 123 \<mapsto> 1] :: int64 \<rightharpoonup> int64) (- 5) = None"
    by simp
  with v have "points ?c \<noteq> [- 10 \<mapsto> 1, 50 \<mapsto> 0, 123 \<mapsto> 1]"
    by (metis option.distinct(1))
  with v show ?thesis by blast
qed

text \<open>
  C8, amended: \<open>Combine Any\<close> on a series built from \<open>{-5:3, 0:0, 123:1}\<close> and one
  built from \<open>{-10:1, 0:2, 50:0}\<close> yields a series whose stored points are exactly
  \<open>{-10:1, -5:1, 0:1, 50:0, 123:1}\<close>, and \<open>Compact\<close> on that series leaves exactly
  the stored points \<open>{-10:1, 50:0, 123:1}\<close>; in whatever order the maps are ranged
  over.
\<close>

theorem Combine_Any_scenario_compacted:
  assumes "is_range_of kvs1 [- 5 \<mapsto> 3, 0 \<mapsto> 0, 123 \<mapsto> 1]"
    and "is_range_of kvs2 [- 10 \<mapsto> 1, 0 \<mapsto> 2, 50 \<mapsto> 0]"
    and "st a = NewSeriesData kvs1" and "st b = NewSeriesData kvs2"
    and "range_orders st [a, b] orders"
  shows "points (fst (Combine Any [a, b] orders st)) =
           [- 10 \<mapsto> 1, - 5 \<mapsto> 1, 0 \<mapsto> 1, 50 \<mapsto> 0, 123 \<mapsto> 1] \<and>
         (\<exists>c'. Compact (fst (Combine Any [a, b] orders st)) = Inr c' \<and>
            points c' = [- 10 \<mapsto> 1, 50 \<mapsto> 0, 123 \<mapsto> 1])"
proof -
  let ?S1 = "NewSeriesData [(- 5, 3), (0, 0), (123, 1)]"
  let ?S2 = "NewSeriesData [(- 10, 1), (0, 2), (50, 0)]"
  let ?M = "[- 10 \<mapsto> 1, - 5 \<mapsto> 1, 0 \<mapsto> 1, 50 \<mapsto> 0, 123 \<mapsto> 1] :: int64 \<rightharpoonup> int64"
  let ?c = "fst (Combine Any [a, b] orders st)"
  have r1: "is_range_of [(- 5, 3), (0, 0), (123, 1)] [- 5 \<mapsto> 3, 0 \<mapsto> 0, 123 \<mapsto> 1]"
    and r2: "is_range_of [(- 10, 1), (0, 2), (50, 0)] [- 10 \<mapsto> 1, 0 \<mapsto> 2, 50 \<mapsto> 0]"
    by (auto simp: is_range_of_def fun_eq_iff)
  have pa: "points (st a) = [- 5 \<mapsto> 3, 0 \<mapsto> 0, 123 \<mapsto> 1]"
    and pb: "points (st b) = [- 10 \<mapsto> 1, 0 \<mapsto> 2, 50 \<mapsto> 0]"
    unfolding assms(3,4) using assms(1,2) by (simp_all add: points_NewSeriesData_range)
  have ga: "fst (Get (st a) x) = fst (Get ?S1 x)" for x
    unfolding assms(3)
    by (rule Get_same_points [OF series_inv_range [OF assms(1)] series_inv_range [OF r1]])
      (simp add: points_NewSeriesData_range [OF assms(1)] points_NewSeriesData_range [OF r1])
  have gb: "fst (Get (st b) x) = fst (Get ?S2 x)" for x
    unfolding assms(4)
    by (rule Get_same_points [OF series_inv_range [OF assms(2)] series_inv_range [OF r2]])
      (simp add: points_NewSeriesData_range [OF assms(2)] points_NewSeriesData_range [OF r2])
  have d: "dom (points ?c) = {- 10, - 5, 0, 50, 123}"
    unfolding Combine_spec(3) range_orders_dom [OF assms(5)] by (auto simp: pa pb)
  have v: "points ?c k = Some (Any [fst (Get ?S1 k), fst (Get ?S2 k)])"
    if "k \<in> dom (points ?c)" for k
    using Combine_spec(4) [OF that] by (simp add: ga gb)
  have g: "fst (Get ?S1 (- 10)) = 0" "fst (Get ?S2 (- 10)) = 1"
    "fst (Get ?S1 (- 5)) = 3" "fst (Get ?S2 (- 5)) = 1"
    "fst (Get ?S1 0) = 0" "fst (Get ?S2 0) = 2"
    "fst (Get ?S1 50) = 0" "fst (Get ?S2 50) = 0"
    "fst (Get ?S1 123) = 1" "fst (Get ?S2 123) = 0"
    by (simp_all add: Get_def NewSeriesData_def sort_S_def find_S_def lookup0_def sless_sint
        Let_def)
  have pts: "points ?c = ?M"
  proof
    fix k
    show "points ?c k = ?M k"
    proof (cases "k \<in> dom (points ?c)")
      case True
      with d have "k = - 10 \<or> k = - 5 \<or> k = 0 \<or> k = 50 \<or> k = 123" by blast
      then show ?thesis using v [OF True] by (auto simp: g Any_def)
    next
      case False
      then have "points ?c k = None" by blast
      moreover from False d have "?M k = None" by auto
      ultimately show ?thesis by simp
    qed
  qed
  have inv: "series_inv ?c" by (rule Combine_spec(2))
  have incr: "strictly_increasing (- 10 # [- 5, 0, 50, 123])"
    by (simp add: strictly_increasing_def sless_sint)
  have dom: "set (- 10 # [- 5, 0, 50, 123]) = dom (points ?c)"
    unfolding d by auto
  have "card (dom (points ?c)) = length (- 10 # [- 5, 0, 50, 123 :: int64])"
    unfolding dom [symmetric] using incr
    by (intro distinct_card) (simp only: strictly_increasing_iff)
  then have size: "\<not> Size ?c < 2" by (simp add: Size_def)
  have k: "keep ?M (lookup0 ?M (- 10)) [- 5, 0, 50, 123] = [50, 123]"
    by (simp add: lookup0_def)
  have m: "?M |` (- (set [- 5, 0, 50, 123] - set [50, 123])) =
      [- 10 \<mapsto> 1, 50 \<mapsto> 0, 123 \<mapsto> 1]"
    by (auto simp: fun_eq_iff restrict_map_def)
  from Compact_points_of_sorted [OF inv size incr dom]
  have "\<exists>c'. Compact ?c = Inr c' \<and> points c' = [- 10 \<mapsto> 1, 50 \<mapsto> 0, 123 \<mapsto> 1]"
    unfolding pts k m .
  with pts show ?thesis by blast
qed

theorem Combine_Any_scenario_compacted_witness:
  "is_range_of [(123, 1), (- 5, 3), (0, 0)] [- 5 \<mapsto> 3, 0 \<mapsto> 0, 123 \<mapsto> 1] \<and>
   is_range_of [(0, 2), (- 10, 1), (50, 0)] [- 10 \<mapsto> 1, 0 \<mapsto> 2, 50 \<mapsto> 0] \<and>
   range_orders
     ((\<lambda>_. NewSeries)(0 := NewSeriesData [(123, 1), (- 5, 3), (0, 0)],
                       1 := NewSeriesData [(0, 2), (- 10, 1), (50, 0)]))
     [0, 1] [[0, 123, - 5], [50, 0, - 10]] \<and>
   (\<exists>c'. Compact (fst (Combine Any [0, 1] [[0, 123, - 5], [50, 0, - 10]]
        ((\<lambda>_. NewSeries)(0 := NewSeriesData [(123, 1), (- 5, 3), (0, 0)],
                          1 := NewSeriesData [(0, 2), (- 10, 1), (50, 0)])))) = Inr c' \<and>
      points c' = [- 10 \<mapsto> 1, 50 \<mapsto> 0, 123 \<mapsto> 1])"
proof -
  let ?kvs1 = "[(123, 1), (- 5, 3), (0, 0)] :: (int64 \<times> int64) list"
  let ?kvs2 = "[(0, 2), (- 10, 1), (50, 0)] :: (int64 \<times> int64) list"
  let ?st = "(\<lambda>_. NewSeries)(0 := NewSeriesData ?kvs1, 1 := NewSeriesData ?kvs2) :: store"
  let ?ord = "[[0, 123, - 5], [50, 0, - 10]] :: int64 list list"
  have r1: "is_range_of ?kvs1 [- 5 \<mapsto> 3, 0 \<mapsto> 0, 123 \<mapsto> 1]"
    and r2: "is_range_of ?kvs2 [- 10 \<mapsto> 1, 0 \<mapsto> 2, 50 \<mapsto> 0]"
    by (auto simp: is_range_of_def fun_eq_iff)
  have a: "?st 0 = NewSeriesData ?kvs1" and b: "?st 1 = NewSeriesData ?kvs2"
    by simp_all
  have r: "range_orders ?st [0, 1] ?ord"
    by (auto simp: range_orders_def points_NewSeriesData)
  from Combine_Any_scenario_compacted [OF r1 r2 a b r] r1 r2 r show ?thesis
    by blast
qed

end
